theory Spec2Isabelle
  imports Main
begin

section \<open>Python values and exceptions\<close>

text \<open>
  The crawler (\<^verbatim>\<open>db/oxylab2.py\<close>) works on decoded JSON payloads. A payload is a value of
  \<open>json\<close>; a \<^verbatim>\<open>dict\<close> is an association list looked up from the front. A float is kept as
  mantissa and binary exponent; the code treats every float alike wherever it can meet
  one (it is truthy unless zero, its text is no integer literal, it has no \<^verbatim>\<open>get\<close>), so the
  infinities and NaN, which \<^verbatim>\<open>json\<close> also decodes, need no constructor of their own.
  Python's \<^verbatim>\<open>None\<close> is \<open>JNull\<close>.

  Every exception that the modelled code can meet is a value of \<open>exn\<close>; a computation that
  may raise returns \<open>exn + 'a\<close> with \<open>Inl\<close> for the raised exception. All of them are
  subclasses of \<^verbatim>\<open>Exception\<close>. \<^verbatim>\<open>KeyboardInterrupt\<close> (an asynchronous signal) is outside
  the model: the runs described here are never interrupted from outside.
\<close>

datatype exn =
    IndexError | KeyError | TypeError | ValueError | AttributeError | OverflowError
  | RequestException | OSError | OtherException

datatype json =
    JNull
  | JBool bool
  | JInt int
  | JFloat int int
  | JStr string
  | JArr "json list"
  | JObj "(string \<times> json) list"

definition bindE :: "exn + 'a \<Rightarrow> ('a \<Rightarrow> exn + 'b) \<Rightarrow> exn + 'b" where
  "bindE m f = (case m of Inl e \<Rightarrow> Inl e | Inr a \<Rightarrow> f a)"

text \<open>\<^verbatim>\<open>try: m  except (E1, ..., En): h\<close> where the handler returns a value.\<close>

definition try_except :: "exn + 'a \<Rightarrow> exn set \<Rightarrow> (exn \<Rightarrow> 'a) \<Rightarrow> exn + 'a" where
  "try_except m caught h =
     (case m of Inl e \<Rightarrow> if e \<in> caught then Inr (h e) else Inl e | Inr a \<Rightarrow> Inr a)"

text \<open>\<^verbatim>\<open>x.get(key, default)\<close>: only a dict has the method.\<close>

fun py_get :: "json \<Rightarrow> string \<Rightarrow> json \<Rightarrow> exn + json" where
  "py_get (JObj kvs) key dflt = Inr (case map_of kvs key of None \<Rightarrow> dflt | Some v \<Rightarrow> v)"
| "py_get _ key dflt = Inl AttributeError"

text \<open>Truth value of an object, as \<^verbatim>\<open>if x:\<close> and \<^verbatim>\<open>not x\<close> test it.\<close>

fun truthy :: "json \<Rightarrow> bool" where
  "truthy JNull = False"
| "truthy (JBool b) = b"
| "truthy (JInt n) = (n \<noteq> 0)"
| "truthy (JFloat m e) = (m \<noteq> 0)"
| "truthy (JStr s) = (s \<noteq> [])"
| "truthy (JArr xs) = (xs \<noteq> [])"
| "truthy (JObj kvs) = (kvs \<noteq> [])"

text \<open>
  \<^verbatim>\<open>x[0]\<close>: the first element of a list or string (IndexError when empty), KeyError on a
  dict (the keys of a decoded JSON object are strings, never the integer 0), TypeError on a
  value that is not subscriptable.
\<close>

fun py_item0 :: "json \<Rightarrow> exn + json" where
  "py_item0 (JArr xs) = (case xs of [] \<Rightarrow> Inl IndexError | x # _ \<Rightarrow> Inr x)"
| "py_item0 (JStr s) = (case s of [] \<Rightarrow> Inl IndexError | c # _ \<Rightarrow> Inr (JStr [c]))"
| "py_item0 (JObj kvs) = Inl KeyError"
| "py_item0 _ = Inl TypeError"

text \<open>
  \<^verbatim>\<open>len(x)\<close> followed by \<^verbatim>\<open>for r in x\<close>: a list gives its elements, a string its
  characters, a dict its keys; anything else raises TypeError.
\<close>

fun py_iter :: "json \<Rightarrow> exn + json list" where
  "py_iter (JArr xs) = Inr xs"
| "py_iter (JStr s) = Inr (map (\<lambda>c. JStr [c]) s)"
| "py_iter (JObj kvs) = Inr (map (\<lambda>kv. JStr (fst kv)) kvs)"
| "py_iter _ = Inl TypeError"

section \<open>Strings and integers\<close>

text \<open>
  Strings are lists of characters with the codes 0 to 255. The whitespace that
  \<^verbatim>\<open>str.strip()\<close> removes (\<^verbatim>\<open>str.isspace\<close>) and the whitespace that \<^verbatim>\<open>int()\<close> skips around a
  literal are not the same set: the separators 28 to 31 are whitespace for the first and
  no part of an integer literal for the second.
\<close>

definition is_space :: "char \<Rightarrow> bool" where
  "is_space c = ((of_char c :: nat) \<in> {9, 10, 11, 12, 13, 28, 29, 30, 31, 32, 133, 160})"

definition py_strip :: "string \<Rightarrow> string" where
  "py_strip s = rev (dropWhile is_space (rev (dropWhile is_space s)))"

definition is_int_space :: "char \<Rightarrow> bool" where
  "is_int_space c = ((of_char c :: nat) \<in> {9, 10, 11, 12, 13, 32, 133, 160})"

definition is_digit :: "char \<Rightarrow> bool" where
  "is_digit c = (48 \<le> (of_char c :: nat) \<and> (of_char c :: nat) \<le> 57)"

definition digit_val :: "char \<Rightarrow> int" where
  "digit_val c = int (of_char c) - 48"

text \<open>
  The digit part of a decimal literal accepted by \<^verbatim>\<open>int()\<close>: digits, with single
  underscores allowed between two digits.
\<close>

fun digits_ok :: "string \<Rightarrow> bool" where
  "digits_ok [] = False"
| "digits_ok [c] = is_digit c"
| "digits_ok (c # d # cs) =
     (is_digit c \<and> (if d = CHR ''_'' then digits_ok cs else digits_ok (d # cs)))"

definition digits_value :: "string \<Rightarrow> int" where
  "digits_value s = foldl (\<lambda>acc c. 10 * acc + digit_val c) 0 (filter is_digit s)"

text \<open>
  \<^verbatim>\<open>str(n)\<close> for an int \<open>n \<ge> 0\<close>: its decimal numeral. The conversions between \<^verbatim>\<open>int\<close> and
  \<^verbatim>\<open>str\<close> raise ValueError beyond \<^verbatim>\<open>sys.int_info.default_max_str_digits\<close> digits.
\<close>

fun decimal :: "nat \<Rightarrow> string" where
  "decimal n = (if n < 10 then [char_of (48 + n)]
                else decimal (n div 10) @ [char_of (48 + n mod 10)])"

declare decimal.simps [simp del]

definition max_str_digits :: nat where
  "max_str_digits = 4300"

text \<open>
  \<^verbatim>\<open>int(s)\<close> for a string, base 10: surrounding whitespace, an optional sign, the digits,
  at most \<open>max_str_digits\<close> of them.
\<close>

definition py_int :: "string \<Rightarrow> exn + int" where
  "py_int s =
     (let t = rev (dropWhile is_int_space (rev (dropWhile is_int_space s)));
          neg = (t \<noteq> [] \<and> hd t = CHR ''-'');
          body = (if t \<noteq> [] \<and> (hd t = CHR ''-'' \<or> hd t = CHR ''+'') then tl t else t)
      in if digits_ok body \<and> length (filter is_digit body) \<le> max_str_digits
         then Inr (if neg then - digits_value body else digits_value body)
         else Inl ValueError)"

text \<open>
  \<^verbatim>\<open>int(str(total).replace(',', ''))\<close> for a truthy \<open>total\<close>. The text of an int is its
  decimal literal, which \<^verbatim>\<open>int\<close> reads back, unless it is too long for \<^verbatim>\<open>str\<close>; the text of
  \<^verbatim>\<open>True\<close>, of a float (it has a point, an exponent, \<^verbatim>\<open>inf\<close> or \<^verbatim>\<open>nan\<close>), of a list and of a
  dict is no integer literal, with or without its commas.
\<close>

fun int_of_total :: "json \<Rightarrow> exn + int" where
  "int_of_total (JInt n) =
     (if length (decimal (nat \<bar>n\<bar>)) \<le> max_str_digits then Inr n else Inl ValueError)"
| "int_of_total (JStr s) = py_int (filter (\<lambda>c. c \<noteq> CHR '','') s)"
| "int_of_total _ = Inl ValueError"

text \<open>\<^verbatim>\<open>needle in hay\<close> on strings.\<close>

fun contains :: "string \<Rightarrow> string \<Rightarrow> bool" where
  "contains needle [] = (needle = [])"
| "contains needle (c # cs) = (take (length needle) (c # cs) = needle \<or> contains needle cs)"

section \<open>Float division and ceiling\<close>

text \<open>
  \<^verbatim>\<open>ceil(total_results / RESULTS_PER_PAGE)\<close> divides two ints with \<^verbatim>\<open>/\<close>: the quotient is
  the double nearest to the exact quotient (ties to even), or OverflowError when that is
  beyond the doubles. A positive double is \<open>m * 2 ^ e\<close> with \<open>2 ^ 52 \<le> m \<le> 2 ^ 53\<close>,
  returned here as the pair \<open>(m, e)\<close>. The division is only reached with both arguments
  positive, and the quotient is at least 1/10, far from the subnormal range.
\<close>

text \<open>\<^verbatim>\<open>int.bit_length\<close> of a positive int.\<close>

function bit_length :: "int \<Rightarrow> int" where
  "bit_length n = (if n \<le> 0 then 0 else 1 + bit_length (n div 2))"
  by pat_completeness auto
termination
  by (relation "measure nat") auto

declare bit_length.simps [simp del]

definition round_half_even :: "int \<Rightarrow> int \<Rightarrow> int" where
  "round_half_even n d =
     (let q = n div d; r = n mod d
      in if 2 * r < d then q else if d < 2 * r then q + 1 else if even q then q else q + 1)"

text \<open>The \<open>k\<close> with \<open>2 ^ k \<le> a / b < 2 ^ (k + 1)\<close>, for positive \<open>a\<close> and \<open>b\<close>.\<close>

definition floor_log2_quot :: "int \<Rightarrow> int \<Rightarrow> int" where
  "floor_log2_quot a b =
     (let d = bit_length a - bit_length b
      in if 0 \<le> d then (if b * 2 ^ nat d \<le> a then d else d - 1)
         else (if b \<le> a * 2 ^ nat (- d) then d else d - 1))"

definition py_truediv :: "int \<Rightarrow> int \<Rightarrow> exn + (int \<times> int)" where
  "py_truediv a b =
     (let k = floor_log2_quot a b;
          e = k - 52;
          m = (if 0 \<le> e then round_half_even a (b * 2 ^ nat e)
               else round_half_even (a * 2 ^ nat (- e)) b)
      in if 1023 < k \<or> (k = 1023 \<and> m = 2 ^ 53) then Inl OverflowError else Inr (m, e))"

definition py_ceil :: "int \<times> int \<Rightarrow> int" where
  "py_ceil f = (case f of (m, e) \<Rightarrow>
     if 0 \<le> e then m * 2 ^ nat e else - ((- m) div 2 ^ nat (- e)))"

section \<open>Result extraction\<close>

definition RESULTS_PER_PAGE :: int where "RESULTS_PER_PAGE = 10"
definition DEFAULT_MAX_START :: int where "DEFAULT_MAX_START = 3000"
definition MAX_RETRIES :: nat where "MAX_RETRIES = 5"
definition MAX_CONSECUTIVE_EMPTY :: int where "MAX_CONSECUTIVE_EMPTY = 2"

text \<open>The body of the \<^verbatim>\<open>try\<close> block of \<^verbatim>\<open>extract_results_from_oxylabs\<close>.\<close>

definition extract_results_body :: "json \<Rightarrow> exn + json" where
  "extract_results_body data =
     bindE (py_get data ''results'' (JArr [])) (\<lambda>results.
       if \<not> truthy results then Inr (JArr [])
       else bindE (py_item0 results) (\<lambda>r0.
            bindE (py_get r0 ''content'' (JObj [])) (\<lambda>content.
            bindE (py_get content ''results'' (JObj [])) (\<lambda>res.
            py_get res ''organic'' (JArr [])))))"

text \<open>
  \<^verbatim>\<open>except (IndexError, KeyError, TypeError)\<close>: these three are logged and answered with
  the empty list; any other exception leaves the function.
\<close>

definition extract_results_from_oxylabs :: "json \<Rightarrow> exn + json" where
  "extract_results_from_oxylabs data =
     try_except (extract_results_body data) {IndexError, KeyError, TypeError} (\<lambda>e. JArr [])"

text \<open>\<^verbatim>\<open>extract_total_results\<close>: \<open>None\<close> is Python's \<^verbatim>\<open>None\<close>.\<close>

definition extract_total_body :: "json \<Rightarrow> exn + int option" where
  "extract_total_body data =
     bindE (py_get data ''results'' (JArr [])) (\<lambda>results.
       if \<not> truthy results then Inr None
       else bindE (py_item0 results) (\<lambda>r0.
            bindE (py_get r0 ''content'' (JObj [])) (\<lambda>content.
            bindE (py_get content ''results'' (JObj [])) (\<lambda>res.
            bindE (py_get res ''search_information'' (JObj [])) (\<lambda>search_info.
            bindE (py_get search_info ''total_results_count'' JNull) (\<lambda>total.
              if truthy total then bindE (int_of_total total) (\<lambda>n. Inr (Some n))
              else Inr None))))))"

definition extract_total_results :: "json \<Rightarrow> exn + int option" where
  "extract_total_results data =
     try_except (extract_total_body data) {IndexError, KeyError, ValueError, TypeError}
       (\<lambda>e. None)"

text \<open>\<^verbatim>\<open>extract_link_from_result\<close>: the keys \<^verbatim>\<open>("url", "link")\<close> in this order.\<close>

fun extract_link_keys :: "string list \<Rightarrow> json \<Rightarrow> exn + string" where
  "extract_link_keys [] result = Inr ''''"
| "extract_link_keys (key # keys) result =
     (case py_get result key JNull of
        Inl e \<Rightarrow> Inl e
      | Inr val \<Rightarrow>
          (case val of
             JStr s \<Rightarrow> if take 4 s = ''http'' then Inr s else extract_link_keys keys result
           | _ \<Rightarrow> extract_link_keys keys result))"

definition extract_link_from_result :: "json \<Rightarrow> exn + string" where
  "extract_link_from_result result = extract_link_keys [''url'', ''link''] result"

text \<open>
  The ceiling computed from the first request (lines 273 to 277 of \<^verbatim>\<open>crawl\<close>), inside its
  \<^verbatim>\<open>try\<close>: \<open>Inr None\<close> when the estimate is missing or not positive.
\<close>

definition probe_ceiling :: "json \<Rightarrow> exn + int option" where
  "probe_ceiling first_data =
     bindE (extract_total_results first_data) (\<lambda>total_results.
       case total_results of
         None \<Rightarrow> Inr None
       | Some t \<Rightarrow>
           if t \<noteq> 0 \<and> 0 < t
           then bindE (py_truediv t RESULTS_PER_PAGE) (\<lambda>q.
                  Inr (Some ((py_ceil q - 1) * RESULTS_PER_PAGE)))
           else Inr None)"

section \<open>Storage\<close>

text \<open>
  The table \<^verbatim>\<open>url_collection\<close> of \<^verbatim>\<open>db/db_operations.py\<close>: rows
  \<open>(category, subcategory, others, url)\<close> with \<^verbatim>\<open>url\<close> unique. What the database server
  does on one call is the environment's choice: the connection is refused
  (\<^verbatim>\<open>get_connection\<close> returns \<^verbatim>\<open>None\<close>), the statement raises (any error other than the
  uniqueness conflict, which \<^verbatim>\<open>ON CONFLICT (url) DO NOTHING\<close> absorbs), or it runs.
\<close>

type_synonym row = "string \<times> string \<times> string \<times> string"

datatype db_fault = DbOk | ConnFail | StmtFail

definition row_url :: "row \<Rightarrow> string" where
  "row_url r = (case r of (category, subcategory, others, url) \<Rightarrow> url)"

text \<open>\<^verbatim>\<open>INSERT ... ON CONFLICT (url) DO NOTHING\<close>.\<close>

definition insert_on_conflict_do_nothing :: "row list \<Rightarrow> row \<Rightarrow> row list" where
  "insert_on_conflict_do_nothing tbl r =
     (if row_url r \<in> row_url ` set tbl then tbl else tbl @ [r])"

text \<open>\<^verbatim>\<open>save_url\<close>: the returned flag and the table afterwards.\<close>

definition save_url :: "db_fault \<Rightarrow> row list \<Rightarrow> string \<Rightarrow> string \<Rightarrow> string \<Rightarrow> string
    \<Rightarrow> bool \<times> row list" where
  "save_url fault tbl category subcategory others url =
     (case fault of
        ConnFail \<Rightarrow> (False, tbl)
      | StmtFail \<Rightarrow> (False, tbl)
      | DbOk \<Rightarrow> (True, insert_on_conflict_do_nothing tbl (category, subcategory, others, url)))"

text \<open>\<^verbatim>\<open>load_saved_urls\<close>: the empty set when the connection or the query fails.\<close>

definition load_saved_urls :: "db_fault \<Rightarrow> row list \<Rightarrow> string \<Rightarrow> string \<Rightarrow> string
    \<Rightarrow> string set" where
  "load_saved_urls fault tbl category subcategory others =
     (case fault of
        DbOk \<Rightarrow> set (map row_url
                 (filter (\<lambda>r. case r of (c, s, oth, u) \<Rightarrow>
                    c = category \<and> s = subcategory \<and> oth = others) tbl))
      | ConnFail \<Rightarrow> {}
      | StmtFail \<Rightarrow> {})"

text \<open>
  \<^verbatim>\<open>init_db\<close>: no connection, nothing happens; a failing statement raises (there is no
  \<^verbatim>\<open>try\<close>); the table content is not changed by \<^verbatim>\<open>CREATE TABLE IF NOT EXISTS\<close>.
\<close>

definition init_db :: "db_fault \<Rightarrow> exn + unit" where
  "init_db fault = (case fault of StmtFail \<Rightarrow> Inl OtherException | _ \<Rightarrow> Inr ())"

section \<open>Checkpoint store\<close>

record checkpoint =
  ck_sheet :: string
  ck_category :: string
  ck_subcategory :: "string option"
  ck_brand :: "string option"
  ck_start :: int
  ck_page_num :: int
  ck_timestamp :: "string option"

definition CHECKPOINT_FILE :: string where
  "CHECKPOINT_FILE = ''crawler_checkpoint.json''"

text \<open>
  The file system as far as the checkpoint is concerned: a map from paths to contents.
  One save is a sequence of operations on it, each one system call: \<^verbatim>\<open>open(tmp, "w")\<close>
  creates or truncates, every chunk that \<^verbatim>\<open>json.dump\<close> produces is appended by a write,
  and \<^verbatim>\<open>os.replace\<close> moves the source over the destination in one step.
\<close>

type_synonym fs = "string \<Rightarrow> string option"

datatype fs_op = OpOpenW string | OpWrite string string | OpReplace string string

fun fs_apply :: "fs \<Rightarrow> fs_op \<Rightarrow> fs" where
  "fs_apply f (OpOpenW path) = f(path \<mapsto> [])"
| "fs_apply f (OpWrite path chunk) =
     f(path \<mapsto> (case f path of None \<Rightarrow> chunk | Some old \<Rightarrow> old @ chunk))"
| "fs_apply f (OpReplace src dst) =
     (case f src of None \<Rightarrow> f | Some content \<Rightarrow> (f(dst \<mapsto> content))(src := None))"

definition fs_run :: "fs \<Rightarrow> fs_op list \<Rightarrow> fs" where
  "fs_run f ops = foldl fs_apply f ops"

text \<open>The operations of one \<^verbatim>\<open>save_checkpoint\<close> whose JSON text is written in \<open>chunks\<close>.\<close>

definition save_ops :: "string list \<Rightarrow> fs_op list" where
  "save_ops chunks =
     (let tmp = CHECKPOINT_FILE @ ''.tmp''
      in OpOpenW tmp # map (OpWrite tmp) chunks @ [OpReplace tmp CHECKPOINT_FILE])"

text \<open>
  What can go wrong in one save: the open fails, the dump fails after some chunks (a full
  disk, a value that is not serialisable), or the replace fails. A failing operation
  raises and changes nothing itself.
\<close>

datatype io_fault = IoOk | OpenFails | DumpFails nat | ReplaceFails

text \<open>The \<^verbatim>\<open>try\<close> block of \<^verbatim>\<open>save_checkpoint\<close>: the exception, if any, and the files.\<close>

definition save_checkpoint_body :: "io_fault \<Rightarrow> string list \<Rightarrow> fs \<Rightarrow> (exn + unit) \<times> fs" where
  "save_checkpoint_body fault chunks f =
     (case fault of
        IoOk \<Rightarrow> (Inr (), fs_run f (save_ops chunks))
      | OpenFails \<Rightarrow> (Inl OSError, f)
      | DumpFails k \<Rightarrow>
          (Inl OSError, fs_run f (take (Suc (min k (length chunks))) (save_ops chunks)))
      | ReplaceFails \<Rightarrow> (Inl OSError, fs_run f (butlast (save_ops chunks))))"

text \<open>One row of the final report (\<^verbatim>\<open>log_stats\<close>); the row number is \<open>None\<close> for "Unknown".\<close>

record stat =
  st_row :: "nat option"
  st_category :: string
  st_subcategory :: string
  st_brand :: string
  st_pages :: int
  st_urls :: int

text \<open>
  The log lines that matter to the control flow's outcome: errors, warnings and the final
  report. Progress lines at level INFO are left out.
\<close>

datatype logmsg =
    LogCredentialsMissing
  | LogCheckpointSaveFailed
  | LogCheckpointReadFailed
  | LogFirstRequestFailed string string
  | LogPageSkipped string string int
  | LogBrandException string string exn
  | LogSheetStopped string
  | LogWorkbookFailed
  | LogSkipSheet string
  | LogSummary "stat list" int

text \<open>
  \<^verbatim>\<open>save_checkpoint\<close> on the files: \<^verbatim>\<open>except Exception\<close> catches whatever the body
  raised and logs it. The result is the outcome of the call, the files and the log lines.
\<close>

definition save_checkpoint_fs :: "io_fault \<Rightarrow> string list \<Rightarrow> fs
    \<Rightarrow> (exn + unit) \<times> fs \<times> logmsg list" where
  "save_checkpoint_fs fault chunks f =
     (case save_checkpoint_body fault chunks f of (r, f') \<Rightarrow>
        (try_except r UNIV (\<lambda>e. ()), f',
         (case r of Inl e \<Rightarrow> [LogCheckpointSaveFailed] | Inr u \<Rightarrow> [])))"

text \<open>
  \<^verbatim>\<open>load_checkpoint\<close>. \<open>stat\<close> is what \<^verbatim>\<open>Path(CHECKPOINT_FILE).exists()\<close> raises, if it raises
  (an OSError other than the ones \<^verbatim>\<open>pathlib\<close> reads as "no such file"): the test stands
  before the \<^verbatim>\<open>try\<close>, so this exception leaves the function. \<open>readable\<close> tells whether
  \<^verbatim>\<open>open\<close> succeeds, \<open>loads\<close> is \<^verbatim>\<open>json.load\<close> on the content: the decoded value, which may be
  any JSON value, or the exception raised for a text that does not decode. Whatever the
  body raises is logged and answered with \<^verbatim>\<open>None\<close>.
\<close>

definition load_checkpoint_body :: "bool \<Rightarrow> (string \<Rightarrow> exn + json) \<Rightarrow> string \<Rightarrow> exn + json" where
  "load_checkpoint_body readable loads content =
     (if \<not> readable then Inl OSError else loads content)"

definition load_checkpoint :: "exn option \<Rightarrow> bool \<Rightarrow> (string \<Rightarrow> exn + json) \<Rightarrow> fs
    \<Rightarrow> (exn + json) \<times> logmsg list" where
  "load_checkpoint stat readable loads f =
     (case stat of
        Some e \<Rightarrow> (Inl e, [])
      | None \<Rightarrow>
          (case f CHECKPOINT_FILE of
             None \<Rightarrow> (Inr JNull, [])
           | Some content \<Rightarrow>
               (let r = load_checkpoint_body readable loads content
                in (try_except r UNIV (\<lambda>e. JNull),
                    (case r of Inl e \<Rightarrow> [LogCheckpointReadFailed] | Inr c \<Rightarrow> [])))))"

text \<open>
  What \<^verbatim>\<open>crawl\<close> reads of a decoded checkpoint: \<^verbatim>\<open>sheet\<close>, \<^verbatim>\<open>subcategory\<close>, \<^verbatim>\<open>brand\<close>,
  \<^verbatim>\<open>start\<close> and \<^verbatim>\<open>page_num\<close>, the last two with the default 0 of \<^verbatim>\<open>get\<close>. \<open>as_checkpoint\<close>
  gives them as a record when the value is a dict in which they have the types that
  \<^verbatim>\<open>crawl\<close> writes: a string, a string or \<^verbatim>\<open>None\<close> twice, an int twice (\<^verbatim>\<open>true\<close> and
  \<^verbatim>\<open>false\<close> are not taken for ints). \<^verbatim>\<open>category\<close> and \<^verbatim>\<open>timestamp\<close> are never read from a
  loaded checkpoint; the record carries them when they are strings. The pagination
  below is defined for such a record: it computes with \<open>start\<close> and \<open>page_num\<close> as ints.
  With a float in their place the loop of the code need not end (\<^verbatim>\<open>start += 10\<close> leaves a
  large float unchanged), so a dict of another shape is outside the model and
  \<open>as_checkpoint\<close> answers \<open>None\<close>.
\<close>

fun as_name :: "json \<Rightarrow> string option option" where
  "as_name JNull = Some None"
| "as_name (JStr s) = Some (Some s)"
| "as_name _ = None"

fun as_int :: "json \<Rightarrow> int option" where
  "as_int (JInt n) = Some n"
| "as_int _ = None"

definition as_checkpoint :: "json \<Rightarrow> checkpoint option" where
  "as_checkpoint resume_state =
     (case resume_state of
        JObj kvs \<Rightarrow>
          (case (map_of kvs ''sheet'',
                 as_name (case map_of kvs ''subcategory'' of None \<Rightarrow> JNull | Some v \<Rightarrow> v),
                 as_name (case map_of kvs ''brand'' of None \<Rightarrow> JNull | Some v \<Rightarrow> v),
                 as_int (case map_of kvs ''start'' of None \<Rightarrow> JInt 0 | Some v \<Rightarrow> v),
                 as_int (case map_of kvs ''page_num'' of None \<Rightarrow> JInt 0 | Some v \<Rightarrow> v)) of
             (Some (JStr sheet), Some subcategory, Some brand, Some st, Some pn) \<Rightarrow>
               Some \<lparr>ck_sheet = sheet,
                     ck_category = (case map_of kvs ''category'' of Some (JStr c) \<Rightarrow> c | _ \<Rightarrow> []),
                     ck_subcategory = subcategory, ck_brand = brand,
                     ck_start = st, ck_page_num = pn,
                     ck_timestamp = (case map_of kvs ''timestamp'' of
                                       Some (JStr t) \<Rightarrow> Some t | _ \<Rightarrow> None)\<rparr>
           | _ \<Rightarrow> None)
      | _ \<Rightarrow> None)"

section \<open>Work list\<close>

text \<open>
  \<^verbatim>\<open>load_subcategories_from_excel\<close>. A sheet is the list of its rows, each the text of the
  cells \<^verbatim>\<open>Category\<close>, \<^verbatim>\<open>SubCategories\<close>, \<^verbatim>\<open>Brand\<close> (what \<^verbatim>\<open>str\<close> gives); \<open>None\<close> is a sheet
  that \<^verbatim>\<open>pd.read_excel\<close> cannot read. \<^verbatim>\<open>SUBCATEGORIES\<close> is a dict in insertion order.
\<close>

type_synonym sheet_rows = "(string \<times> string \<times> string) list"
type_synonym subcategories = "(string \<times> string list) list"

fun add_brand :: "subcategories \<Rightarrow> string \<Rightarrow> string \<Rightarrow> subcategories" where
  "add_brand [] subcategory brand = [(subcategory, [brand])]"
| "add_brand ((s, bs) # rest) subcategory brand =
     (if s = subcategory then (s, if brand \<in> set bs then bs else bs @ [brand]) # rest
      else (s, bs) # add_brand rest subcategory brand)"

fun load_rows :: "sheet_rows \<Rightarrow> nat \<Rightarrow> subcategories \<times> ((string \<times> string) \<Rightarrow> nat option)
    \<Rightarrow> subcategories \<times> ((string \<times> string) \<Rightarrow> nat option)" where
  "load_rows [] idx acc = acc"
| "load_rows ((cat, sub, br) # rows) idx (subs, row_mapping) =
     (let subcategory = py_strip sub; brand = py_strip br
      in load_rows rows (Suc idx)
           (add_brand subs subcategory brand, row_mapping((subcategory, brand) \<mapsto> idx + 2)))"

definition load_subcategories_from_excel :: "sheet_rows option
    \<Rightarrow> exn + (string \<times> subcategories \<times> ((string \<times> string) \<Rightarrow> nat option))" where
  "load_subcategories_from_excel sheet =
     (case sheet of
        None \<Rightarrow> Inl OtherException
      | Some [] \<Rightarrow> Inl ValueError
      | Some ((cat, sub, br) # rows) \<Rightarrow>
          Inr (py_strip cat, load_rows ((cat, sub, br) # rows) 0 ([], Map.empty)))"

section \<open>The environment and the world\<close>

text \<open>
  Everything outside the program is the environment: the credentials, the search
  provider, the database server, the disk, the clock, the JSON codec of the checkpoint and
  the workbook. The provider answers its \<open>k\<close>-th call for a query and a page with a decoded
  body, or with the exception that \<^verbatim>\<open>session.post\<close>, \<^verbatim>\<open>raise_for_status\<close> or \<^verbatim>\<open>resp.json\<close>
  raises (\<open>RequestException\<close> for the ones \<^verbatim>\<open>requests\<close> derives from it).
\<close>

datatype fetch_outcome = Resp json | Fail exn

record env =
  OXYLABS_USERNAME :: "string option"
  OXYLABS_PASSWORD :: "string option"
  provider :: "nat \<Rightarrow> string \<Rightarrow> int \<Rightarrow> fetch_outcome"
  db_faults :: "nat \<Rightarrow> db_fault"
  io_faults :: "nat \<Rightarrow> io_fault"
  utcnow :: "nat \<Rightarrow> string"
  json_chunks :: "checkpoint \<Rightarrow> string list"
  json_loads :: "string \<Rightarrow> exn + json"
  ckpt_stat :: "exn option"
  ckpt_readable :: bool
  workbook :: "(string \<times> sheet_rows option) list option"

text \<open>
  The world is what the program changes: the table, the files, and the sequence of its
  calls to the outside, in order. The \<open>k\<close> of an oracle is the number of earlier calls of
  the same kind.
\<close>

datatype event =
    EvInitDb
  | EvLoadSeen string string
  | EvProbe string string
  | EvPage string string int nat
  | EvSaveUrl string string string
  | EvSave checkpoint

record world =
  w_db :: "row list"
  w_files :: fs
  w_trace :: "event list"
  w_log :: "logmsg list"

fun is_fetch :: "event \<Rightarrow> bool" where
  "is_fetch (EvProbe s b) = True"
| "is_fetch (EvPage s b st a) = True"
| "is_fetch _ = False"

fun is_db :: "event \<Rightarrow> bool" where
  "is_db EvInitDb = True"
| "is_db (EvLoadSeen s b) = True"
| "is_db (EvSaveUrl s b u) = True"
| "is_db _ = False"

fun is_save :: "event \<Rightarrow> bool" where
  "is_save (EvSave c) = True"
| "is_save _ = False"

definition n_fetch :: "world \<Rightarrow> nat" where
  "n_fetch w = length (filter is_fetch (w_trace w))"

definition n_db :: "world \<Rightarrow> nat" where
  "n_db w = length (filter is_db (w_trace w))"

definition n_save :: "world \<Rightarrow> nat" where
  "n_save w = length (filter is_save (w_trace w))"

definition emit :: "event \<Rightarrow> world \<Rightarrow> world" where
  "emit ev w = w\<lparr>w_trace := w_trace w @ [ev]\<rparr>"

definition say :: "logmsg \<Rightarrow> world \<Rightarrow> world" where
  "say m w = w\<lparr>w_log := w_log w @ [m]\<rparr>"

text \<open>\<^verbatim>\<open>oxylabs_search\<close> with the response checked and decoded.\<close>

definition oxylabs_search :: "env \<Rightarrow> world \<Rightarrow> string \<Rightarrow> int \<Rightarrow> int \<Rightarrow> fetch_outcome" where
  "oxylabs_search env w query st num = provider env (n_fetch w) query (st div num + 1)"

definition build_query :: "string \<Rightarrow> string \<Rightarrow> string" where
  \<open>build_query subcategory brand =
     ''site:catawiki.com/en/l/ "'' @ py_strip subcategory @ ''" "'' @ py_strip brand
       @ ''" ("Sold" OR "Final bid")''\<close>

text \<open>\<^verbatim>\<open>save_checkpoint(state)\<close> in the world: it returns normally whatever happened.\<close>

definition save_checkpoint :: "env \<Rightarrow> checkpoint \<Rightarrow> world \<Rightarrow> world" where
  "save_checkpoint env state w =
     (case save_checkpoint_fs (io_faults env (n_save w)) (json_chunks env state) (w_files w) of
        (r, f', msgs) \<Rightarrow>
          w\<lparr>w_files := f', w_trace := w_trace w @ [EvSave state], w_log := w_log w @ msgs\<rparr>)"

section \<open>Pagination of one unit\<close>

record crawl_state =
  ck :: checkpoint
  total_urls_found :: int
  log_stats :: "stat list"
  skip_until_resume :: bool

record page_state =
  start :: int
  page_num :: int
  brand_urls :: int
  consecutive_empty :: int
  max_start :: int
  seen_urls :: "string set"
  found_this_page :: int

type_synonym cfg = "crawl_state \<times> page_state \<times> world"

datatype verdict = Continue | Break | Raise exn

text \<open>The body of \<^verbatim>\<open>for result in organic\<close> (lines 316 to 327).\<close>

definition process_result :: "env \<Rightarrow> string \<Rightarrow> string \<Rightarrow> string \<Rightarrow> json \<Rightarrow> cfg \<Rightarrow> exn + cfg" where
  "process_result env CATEGORY subcategory brand result c =
     (case c of (cs, st, w) \<Rightarrow>
        bindE (extract_link_from_result result) (\<lambda>link.
          if contains ''catawiki.com/en/l/'' link then
            (let clean = takeWhile (\<lambda>ch. ch \<noteq> CHR ''&'') link
             in if clean \<notin> seen_urls st then
                  (let st1 = st\<lparr>seen_urls := insert clean (seen_urls st)\<rparr>
                   in case save_url (db_faults env (n_db w)) (w_db w)
                             CATEGORY subcategory brand clean of
                        (saved, tbl) \<Rightarrow>
                          (let w1 = emit (EvSaveUrl subcategory brand clean) (w\<lparr>w_db := tbl\<rparr>)
                           in if saved then
                                Inr (cs\<lparr>total_urls_found := total_urls_found cs + 1\<rparr>,
                                     st1\<lparr>found_this_page := found_this_page st1 + 1,
                                         brand_urls := brand_urls st1 + 1\<rparr>,
                                     w1)
                              else Inr (cs, st1, w1)))
                else Inr c)
          else Inr c))"

text \<open>The loop itself: an exception leaves it with what the earlier results changed.\<close>

fun process_organic :: "env \<Rightarrow> string \<Rightarrow> string \<Rightarrow> string \<Rightarrow> json list \<Rightarrow> cfg
    \<Rightarrow> exn option \<times> cfg" where
  "process_organic env CATEGORY subcategory brand [] c = (None, c)"
| "process_organic env CATEGORY subcategory brand (result # results) c =
     (case process_result env CATEGORY subcategory brand result c of
        Inl e \<Rightarrow> (Some e, c)
      | Inr c' \<Rightarrow> process_organic env CATEGORY subcategory brand results c')"

text \<open>
  The retry loop (lines 293 to 302) over the attempts that are left; \<open>data\<close> stays
  \<^verbatim>\<open>None\<close> when every attempt raised a \<^verbatim>\<open>RequestException\<close>. Another exception is not
  caught here.
\<close>

fun fetch_retry :: "env \<Rightarrow> string \<Rightarrow> string \<Rightarrow> string \<Rightarrow> int \<Rightarrow> nat list \<Rightarrow> world
    \<Rightarrow> (exn + json) \<times> world" where
  "fetch_retry env subcategory brand query st [] w = (Inr JNull, w)"
| "fetch_retry env subcategory brand query st (attempt # attempts) w =
     (let outcome = oxylabs_search env w query st RESULTS_PER_PAGE;
          w1 = emit (EvPage subcategory brand st attempt) w
      in case outcome of
           Resp data \<Rightarrow> (Inr data, w1)
         | Fail e \<Rightarrow>
             if e = RequestException
             then fetch_retry env subcategory brand query st attempts w1
             else (Inl e, w1))"

text \<open>Lines 340 to 344: the ceiling test and the step to the next offset.\<close>

definition ceiling_check :: "cfg \<Rightarrow> verdict \<times> cfg" where
  "ceiling_check c =
     (case c of (cs, st, w) \<Rightarrow>
        if max_start st < start st + RESULTS_PER_PAGE then (Break, c)
        else (Continue, (cs, st\<lparr>start := start st + RESULTS_PER_PAGE\<rparr>, w)))"

text \<open>Lines 330 to 344, after the results of the page are processed.\<close>

definition finish_page :: "cfg \<Rightarrow> verdict \<times> cfg" where
  "finish_page c =
     (case c of (cs, st, w) \<Rightarrow>
        (let st1 = st\<lparr>page_num := page_num st + 1\<rparr>
         in if found_this_page st1 = 0 then
              (let st2 = st1\<lparr>consecutive_empty := consecutive_empty st1 + 1\<rparr>
               in if MAX_CONSECUTIVE_EMPTY \<le> consecutive_empty st2 then (Break, (cs, st2, w))
                  else ceiling_check (cs, st2, w))
            else ceiling_check (cs, st1\<lparr>consecutive_empty := 0\<rparr>, w)))"

text \<open>Lines 310 to 344: a page whose body was received.\<close>

definition handle_page :: "env \<Rightarrow> string \<Rightarrow> string \<Rightarrow> string \<Rightarrow> json \<Rightarrow> cfg \<Rightarrow> verdict \<times> cfg" where
  "handle_page env CATEGORY subcategory brand data c =
     (case c of (cs, st, w) \<Rightarrow>
        (case extract_results_from_oxylabs data of
           Inl e \<Rightarrow> (Raise e, c)
         | Inr organic \<Rightarrow>
             (case extract_total_results data of
                Inl e \<Rightarrow> (Raise e, c)
              | Inr total_results \<Rightarrow>
                  (case py_iter organic of
                     Inl e \<Rightarrow> (Raise e, c)
                   | Inr results \<Rightarrow>
                       (case process_organic env CATEGORY subcategory brand results
                               (cs, st\<lparr>found_this_page := 0\<rparr>, w) of
                          (Some e, c') \<Rightarrow> (Raise e, c')
                        | (None, c') \<Rightarrow> finish_page c')))))"

text \<open>One round of \<^verbatim>\<open>while start <= max_start\<close> (lines 286 to 344).\<close>

definition page_step :: "env \<Rightarrow> string \<Rightarrow> string \<Rightarrow> string \<Rightarrow> string \<Rightarrow> cfg \<Rightarrow> verdict \<times> cfg" where
  "page_step env CATEGORY subcategory brand query c =
     (case c of (cs, st, w) \<Rightarrow>
        (let cs1 = cs\<lparr>ck := (ck cs)\<lparr>ck_start := start st, ck_page_num := page_num st,
                                    ck_timestamp := Some (utcnow env (length (w_trace w)))\<rparr>\<rparr>;
             w1 = save_checkpoint env (ck cs1) w
         in case fetch_retry env subcategory brand query (start st) [1..<MAX_RETRIES + 1] w1 of
              (Inl e, w2) \<Rightarrow> (Raise e, (cs1, st, w2))
            | (Inr data, w2) \<Rightarrow>
                if data = JNull then
                  (Continue,
                   (cs1,
                    st\<lparr>consecutive_empty := consecutive_empty st + 1,
                       start := start st + RESULTS_PER_PAGE\<rparr>,
                    say (LogPageSkipped subcategory brand (start st)) w2))
                else handle_page env CATEGORY subcategory brand data (cs1, st, w2)))"

text \<open>\<^verbatim>\<open>while start <= max_start\<close>: the exception that ended the loop, if one did.\<close>

function paginate :: "env \<Rightarrow> string \<Rightarrow> string \<Rightarrow> string \<Rightarrow> string \<Rightarrow> cfg \<Rightarrow> exn option \<times> cfg" where
  "paginate env CATEGORY subcategory brand query c =
     (if start (fst (snd c)) \<le> max_start (fst (snd c)) then
        (case page_step env CATEGORY subcategory brand query c of
           (Continue, c') \<Rightarrow> paginate env CATEGORY subcategory brand query c'
         | (Break, c') \<Rightarrow> (None, c')
         | (Raise e, c') \<Rightarrow> (Some e, c'))
      else (None, c))"
  by pat_completeness auto
termination
proof -
  have pr: "start st' = start st \<and> max_start st' = max_start st"
    if "process_result env CATEGORY subcategory brand result (cs, st, w) = Inr (cs', st', w')"
    for env CATEGORY subcategory brand result cs st w cs' st' w'
    using that
    by (auto simp: process_result_def bindE_def Let_def
             split: sum.splits if_splits prod.splits)
  have po: "start st' = start st \<and> max_start st' = max_start st"
    if "process_organic env CATEGORY subcategory brand results (cs, st, w) = (r, (cs', st', w'))"
    for env CATEGORY subcategory brand results cs st w r cs' st' w'
    using that
  proof (induction results arbitrary: cs st w)
    case Nil
    then show ?case by simp
  next
    case (Cons result results)
    show ?case
    proof (cases "process_result env CATEGORY subcategory brand result (cs, st, w)")
      case (Inl e)
      with Cons.prems show ?thesis by simp
    next
      case (Inr c1)
      obtain cs1 st1 w1 where c1: "c1 = (cs1, st1, w1)" by (cases c1) auto
      from Inr c1 have "start st1 = start st \<and> max_start st1 = max_start st"
        using pr by blast
      moreover from Cons.prems Inr c1
      have "process_organic env CATEGORY subcategory brand results (cs1, st1, w1)
              = (r, (cs', st', w'))" by simp
      then have "start st' = start st1 \<and> max_start st' = max_start st1"
        by (rule Cons.IH)
      ultimately show ?thesis by simp
    qed
  qed
  have fp: "start st' = start st + RESULTS_PER_PAGE \<and> max_start st' = max_start st"
    if "finish_page (cs, st, w) = (Continue, (cs', st', w'))" for cs st w cs' st' w'
    using that
    by (auto simp: finish_page_def ceiling_check_def Let_def split: if_splits)
  have hp: "start st' = start st + RESULTS_PER_PAGE \<and> max_start st' = max_start st"
    if h: "handle_page env CATEGORY subcategory brand data (cs, st, w)
             = (Continue, (cs', st', w'))"
    for env CATEGORY subcategory brand data cs st w cs' st' w'
  proof -
    from h obtain results cs1 st1 w1 where
      a: "process_organic env CATEGORY subcategory brand results
             (cs, st\<lparr>found_this_page := 0\<rparr>, w) = (None, (cs1, st1, w1))"
      and b: "finish_page (cs1, st1, w1) = (Continue, (cs', st', w'))"
      by (auto simp: handle_page_def split: sum.splits prod.splits option.splits)
    from po[OF a] fp[OF b] show ?thesis by simp
  qed
  have ps: "start st' = start st + RESULTS_PER_PAGE \<and> max_start st' = max_start st"
    if "page_step env CATEGORY subcategory brand query (cs, st, w)
          = (Continue, (cs', st', w'))"
    for env CATEGORY subcategory brand query cs st w cs' st' w'
    using that
    by (auto simp: page_step_def Let_def split: sum.splits prod.splits if_splits dest!: hp)
  show ?thesis
    apply (relation "measure (\<lambda>(env, CATEGORY, subcategory, brand, query, c).
           nat (max_start (fst (snd c)) - start (fst (snd c)) + 1))")
     apply simp
    subgoal for env CATEGORY subcategory brand query c x y
      apply (cases c; cases y)
      apply (auto simp: RESULTS_PER_PAGE_def dest!: ps[OF sym])
      done
    done
qed

declare paginate.simps [simp del]

section \<open>One unit, one sheet, the run\<close>

text \<open>\<^verbatim>\<open>xs.index(x)\<close>: ValueError when \<open>x\<close> is not in the list.\<close>

fun py_index :: "'a list \<Rightarrow> 'a \<Rightarrow> exn + nat" where
  "py_index [] x = Inl ValueError"
| "py_index (y # ys) x = (if y = x then Inr 0 else bindE (py_index ys x) (\<lambda>i. Inr (Suc i)))"

text \<open>
  The resume logic of lines 232 to 253 for a checkpoint \<open>rs\<close>: the brand is skipped
  (\<^verbatim>\<open>continue\<close>), it is the one to resume, or it is processed like any other.
\<close>

datatype resume_action = SkipBrand | ResumeHere | Proceed

definition resume_logic :: "subcategories \<Rightarrow> checkpoint \<Rightarrow> string \<Rightarrow> string
    \<Rightarrow> exn + resume_action" where
  "resume_logic SUBCATEGORIES rs subcategory brand =
     (let resume_sub = ck_subcategory rs; resume_brand = ck_brand rs
      in bindE
           (if Some subcategory = resume_sub \<and> Some brand \<noteq> resume_brand then
              (case map_of SUBCATEGORIES subcategory of
                 None \<Rightarrow> Inl KeyError
               | Some brands_in_sub \<Rightarrow>
                   try_except
                     (bindE (py_index brands_in_sub brand) (\<lambda>i.
                      bindE (py_index (map Some brands_in_sub) resume_brand) (\<lambda>j.
                      Inr (i < j))))
                     {ValueError} (\<lambda>e. False))
            else Inr False)
           (\<lambda>skip.
              if skip then Inr SkipBrand
              else if Some subcategory = resume_sub \<and> Some brand = resume_brand
                   then Inr ResumeHere
                   else Inr Proceed))"

text \<open>
  The first request (lines 269 to 282): the ceiling it gives, the default when the
  estimate is missing or anything at all was raised.
\<close>

definition first_request :: "fetch_outcome \<Rightarrow> exn + int option" where
  "first_request outcome =
     (case outcome of Fail e \<Rightarrow> Inl e | Resp first_data \<Rightarrow> probe_ceiling first_data)"

definition probe_max_start :: "fetch_outcome \<Rightarrow> int" where
  "probe_max_start outcome =
     (case try_except (first_request outcome) UNIV (\<lambda>e. None) of
        Inr (Some m) \<Rightarrow> m
      | _ \<Rightarrow> DEFAULT_MAX_START)"

text \<open>The \<^verbatim>\<open>try\<close> block of one brand (lines 231 to 344).\<close>

definition unit_body :: "env \<Rightarrow> string \<Rightarrow> subcategories \<Rightarrow> checkpoint option \<Rightarrow> string \<Rightarrow> string
    \<Rightarrow> cfg \<Rightarrow> exn option \<times> cfg" where
  "unit_body env CATEGORY SUBCATEGORIES resume_state subcategory brand c =
     (case c of (cs, st, w) \<Rightarrow>
        (case (if skip_until_resume cs
               then (case resume_state of
                       None \<Rightarrow> Inr (Proceed, None)
                     | Some rs \<Rightarrow>
                         bindE (resume_logic SUBCATEGORIES rs subcategory brand)
                           (\<lambda>a. Inr (a, Some rs)))
               else Inr (Proceed, None)) of
           Inl e \<Rightarrow> (Some e, c)
         | Inr (SkipBrand, r) \<Rightarrow> (None, c)
         | Inr (action, r) \<Rightarrow>
             (let st1 = (case (action, r) of
                           (ResumeHere, Some rs) \<Rightarrow>
                             st\<lparr>start := ck_start rs, page_num := ck_page_num rs\<rparr>
                         | _ \<Rightarrow> st);
                  cs1 = (if action = ResumeHere then cs\<lparr>skip_until_resume := False\<rparr> else cs);
                  cs2 = cs1\<lparr>ck := (ck cs1)\<lparr>ck_subcategory := Some subcategory,
                                            ck_brand := Some brand,
                                            ck_start := start st1,
                                            ck_page_num := page_num st1\<rparr>\<rparr>;
                  seen = load_saved_urls (db_faults env (n_db w)) (w_db w)
                           CATEGORY subcategory brand;
                  w1 = emit (EvLoadSeen subcategory brand) w;
                  query = build_query subcategory brand;
                  outcome = oxylabs_search env w1 query 0 RESULTS_PER_PAGE;
                  w2 = emit (EvProbe subcategory brand) w1;
                  w3 = (case first_request outcome of
                          Inl e \<Rightarrow> say (LogFirstRequestFailed subcategory brand) w2
                        | Inr m \<Rightarrow> w2)
              in paginate env CATEGORY subcategory brand query
                   (cs2, st1\<lparr>seen_urls := seen, max_start := probe_max_start outcome\<rparr>, w3))))"

text \<open>
  One brand with its \<^verbatim>\<open>except Exception\<close> and its \<^verbatim>\<open>finally\<close> (lines 223 to 364): the
  report row is appended and the checkpoint saved however the body ended.
\<close>

definition crawl_unit :: "env \<Rightarrow> string \<Rightarrow> subcategories \<Rightarrow> ((string \<times> string) \<Rightarrow> nat option)
    \<Rightarrow> checkpoint option \<Rightarrow> string \<Rightarrow> string \<Rightarrow> crawl_state \<times> world \<Rightarrow> crawl_state \<times> world" where
  "crawl_unit env CATEGORY SUBCATEGORIES ROW_MAPPING resume_state subcategory brand c =
     (case c of (cs, w) \<Rightarrow>
        (let row_number = ROW_MAPPING (subcategory, brand);
             st0 = \<lparr>start = 0, page_num = 0, brand_urls = 0, consecutive_empty = 0,
                    max_start = DEFAULT_MAX_START, seen_urls = {}, found_this_page = 0\<rparr>
         in case unit_body env CATEGORY SUBCATEGORIES resume_state subcategory brand
                   (cs, st0, w) of
              (r, (cs1, st1, w1)) \<Rightarrow>
                (let w2 = (case r of
                             Some e \<Rightarrow> say (LogBrandException subcategory brand e) w1
                           | None \<Rightarrow> w1);
                     cs2 = cs1\<lparr>log_stats := log_stats cs1 @
                                [\<lparr>st_row = row_number, st_category = CATEGORY,
                                  st_subcategory = subcategory, st_brand = brand,
                                  st_pages = page_num st1, st_urls = brand_urls st1\<rparr>]\<rparr>
                 in (cs2, save_checkpoint env (ck cs2) w2))))"

fun crawl_brands :: "env \<Rightarrow> string \<Rightarrow> subcategories \<Rightarrow> ((string \<times> string) \<Rightarrow> nat option)
    \<Rightarrow> checkpoint option \<Rightarrow> string \<Rightarrow> string list \<Rightarrow> crawl_state \<times> world
    \<Rightarrow> crawl_state \<times> world" where
  "crawl_brands env CATEGORY SUBCATEGORIES ROW_MAPPING resume_state subcategory [] c = c"
| "crawl_brands env CATEGORY SUBCATEGORIES ROW_MAPPING resume_state subcategory (brand # brands) c =
     crawl_brands env CATEGORY SUBCATEGORIES ROW_MAPPING resume_state subcategory brands
       (crawl_unit env CATEGORY SUBCATEGORIES ROW_MAPPING resume_state subcategory brand c)"

text \<open>
  \<^verbatim>\<open>for subcategory, brands in SUBCATEGORIES.items()\<close> over the items that are left: while
  the resume point is still searched, a subcategory other than the checkpoint's is passed
  over (lines 216 to 220).
\<close>

fun crawl_subs :: "env \<Rightarrow> string \<Rightarrow> subcategories \<Rightarrow> ((string \<times> string) \<Rightarrow> nat option)
    \<Rightarrow> checkpoint option \<Rightarrow> subcategories \<Rightarrow> crawl_state \<times> world \<Rightarrow> crawl_state \<times> world" where
  "crawl_subs env CATEGORY SUBCATEGORIES ROW_MAPPING resume_state [] c = c"
| "crawl_subs env CATEGORY SUBCATEGORIES ROW_MAPPING resume_state ((subcategory, brands) # items) c =
     (if skip_until_resume (fst c) \<and>
         (case resume_state of None \<Rightarrow> False | Some rs \<Rightarrow> Some subcategory \<noteq> ck_subcategory rs)
      then crawl_subs env CATEGORY SUBCATEGORIES ROW_MAPPING resume_state items c
      else crawl_subs env CATEGORY SUBCATEGORIES ROW_MAPPING resume_state items
             (crawl_brands env CATEGORY SUBCATEGORIES ROW_MAPPING resume_state
                subcategory brands c))"

text \<open>\<^verbatim>\<open>not OXYLABS_USERNAME\<close>: the variable is unset or empty.\<close>

definition unset :: "string option \<Rightarrow> bool" where
  "unset v = (case v of None \<Rightarrow> True | Some s \<Rightarrow> s = [])"

definition read_sheet :: "env \<Rightarrow> string \<Rightarrow> sheet_rows option" where
  "read_sheet env sheet_name =
     (case workbook env of
        None \<Rightarrow> None
      | Some sheets \<Rightarrow> (case map_of sheets sheet_name of None \<Rightarrow> None | Some rows \<Rightarrow> rows))"

text \<open>The checkpoint record that \<^verbatim>\<open>crawl\<close> starts from (lines 191 to 207).\<close>

definition initial_ck :: "string \<Rightarrow> string \<Rightarrow> checkpoint option \<Rightarrow> checkpoint" where
  "initial_ck sheet_name CATEGORY resume_state =
     (let ck0 = \<lparr>ck_sheet = sheet_name, ck_category = CATEGORY, ck_subcategory = None,
                 ck_brand = None, ck_start = 0, ck_page_num = 0, ck_timestamp = None\<rparr>
      in case resume_state of
           None \<Rightarrow> ck0
         | Some rs \<Rightarrow>
             if ck_sheet rs = sheet_name
             then ck0\<lparr>ck_subcategory := ck_subcategory rs, ck_brand := ck_brand rs,
                     ck_start := ck_start rs, ck_page_num := ck_page_num rs\<rparr>
             else ck0)"

text \<open>
  Lines 187 to 379 of \<^verbatim>\<open>crawl\<close> for a resume state that is \<^verbatim>\<open>None\<close> or a dict of the
  checkpoint's shape: the loops, in which every exception of a unit is caught, and the
  final report.
\<close>

definition crawl_units :: "env \<Rightarrow> string \<Rightarrow> string \<Rightarrow> subcategories
    \<Rightarrow> ((string \<times> string) \<Rightarrow> nat option) \<Rightarrow> checkpoint option \<Rightarrow> world \<Rightarrow> exn option \<times> world" where
  "crawl_units env sheet_name CATEGORY SUBCATEGORIES ROW_MAPPING resume_state w =
     (let cs0 = \<lparr>ck = initial_ck sheet_name CATEGORY resume_state,
                 total_urls_found = 0, log_stats = [],
                 skip_until_resume = (resume_state \<noteq> None)\<rparr>
      in case crawl_subs env CATEGORY SUBCATEGORIES ROW_MAPPING resume_state
                SUBCATEGORIES (cs0, w) of
           (cs, w') \<Rightarrow> (None, say (LogSummary (log_stats cs) (total_urls_found cs)) w'))"

text \<open>
  \<^verbatim>\<open>crawl(sheet_name, resume_state)\<close>: the exception that left it, if any, and the world;
  \<open>None\<close> when \<open>resume_state\<close> is a dict outside the model. A \<open>resume_state\<close> that is neither
  \<^verbatim>\<open>None\<close> nor a dict has no \<^verbatim>\<open>get\<close>: if it is truthy, line 201 raises AttributeError, before
  the \<^verbatim>\<open>try\<close>; if it is falsy, line 201 passes it, \<^verbatim>\<open>skip_until_resume\<close> is set, and line 217
  raises in the first round of the loop, under the \<^verbatim>\<open>finally\<close> that logs the report.
\<close>

definition crawl :: "env \<Rightarrow> string \<Rightarrow> json \<Rightarrow> world \<Rightarrow> (exn option \<times> world) option" where
  "crawl env sheet_name resume_state w =
     (case load_subcategories_from_excel (read_sheet env sheet_name) of
        Inl e \<Rightarrow> Some (Some e, w)
      | Inr (CATEGORY, SUBCATEGORIES, ROW_MAPPING) \<Rightarrow>
          if unset (OXYLABS_USERNAME env) \<or> unset (OXYLABS_PASSWORD env)
          then Some (None, say LogCredentialsMissing w)
          else (case init_db (db_faults env (n_db w)) of
                  Inl e \<Rightarrow> Some (Some e, emit EvInitDb w)
                | Inr u \<Rightarrow>
                    (case resume_state of
                       JNull \<Rightarrow>
                         Some (crawl_units env sheet_name CATEGORY SUBCATEGORIES ROW_MAPPING
                                 None (emit EvInitDb w))
                     | JObj kvs \<Rightarrow>
                         (case as_checkpoint resume_state of
                            None \<Rightarrow> None
                          | Some rs \<Rightarrow>
                              Some (crawl_units env sheet_name CATEGORY SUBCATEGORIES ROW_MAPPING
                                      (Some rs) (emit EvInitDb w)))
                     | _ \<Rightarrow>
                         if truthy resume_state
                         then Some (Some AttributeError, emit EvInitDb w)
                         else Some (if SUBCATEGORIES = [] then None else Some AttributeError,
                                    say (LogSummary [] 0) (emit EvInitDb w)))))"

text \<open>
  The loop over the sheets of the workbook (lines 390 to 402). \<^verbatim>\<open>resume.get\<close> raises on a
  truthy value that is not a dict; the handler of line 400 logs it and ends the loop, as
  it does for an exception of \<^verbatim>\<open>crawl\<close>.
\<close>

fun main_loop :: "env \<Rightarrow> string list \<Rightarrow> json \<Rightarrow> world \<Rightarrow> world option" where
  "main_loop env [] resume w = Some w"
| "main_loop env (sheet # sheets) resume w =
     (if truthy resume then
        (case py_get resume ''sheet'' JNull of
           Inl e \<Rightarrow> Some (say (LogSheetStopped sheet) w)
         | Inr sh \<Rightarrow>
             if sh \<noteq> JStr sheet
             then main_loop env sheets resume (say (LogSkipSheet sheet) w)
             else (case crawl env sheet resume w of
                     None \<Rightarrow> None
                   | Some (None, w') \<Rightarrow> main_loop env sheets JNull w'
                   | Some (Some e, w') \<Rightarrow> Some (say (LogSheetStopped sheet) w')))
      else (case crawl env sheet JNull w of
              None \<Rightarrow> None
            | Some (None, w') \<Rightarrow> main_loop env sheets resume w'
            | Some (Some e, w') \<Rightarrow> Some (say (LogSheetStopped sheet) w')))"

text \<open>
  The script (lines 382 to 404): the exception that ended the process, if one did, and the
  world; \<open>None\<close> when the run meets a checkpoint outside the model. An exception of
  \<^verbatim>\<open>load_checkpoint\<close> (line 383) or of \<^verbatim>\<open>pd.ExcelFile\<close> is not caught.
\<close>

definition main :: "env \<Rightarrow> world \<Rightarrow> (exn option \<times> world) option" where
  "main env w =
     (case load_checkpoint (ckpt_stat env) (ckpt_readable env) (json_loads env) (w_files w) of
        (r, msgs) \<Rightarrow>
          (let w1 = w\<lparr>w_log := w_log w @ msgs\<rparr>
           in case r of
                Inl e \<Rightarrow> Some (Some e, w1)
              | Inr resume \<Rightarrow>
                  (case workbook env of
                     None \<Rightarrow> Some (Some OtherException, say LogWorkbookFailed w1)
                   | Some sheets \<Rightarrow>
                       map_option (Pair None) (main_loop env (map fst sheets) resume w1))))"

section \<open>Notions used in the statements\<close>

text \<open>
  The events that a call added to the trace, the unit and the offset of a request to the
  provider (the first request of a unit is made with \<^verbatim>\<open>start=0\<close>), and the units of a work
  list in the order of the two loops.
\<close>

fun fetch_unit :: "event \<Rightarrow> string \<times> string" where
  "fetch_unit (EvProbe s b) = (s, b)"
| "fetch_unit (EvPage s b st a) = (s, b)"
| "fetch_unit _ = ([], [])"

fun fetch_offset :: "event \<Rightarrow> int" where
  "fetch_offset (EvPage s b st a) = st"
| "fetch_offset _ = 0"

definition new_events :: "world \<Rightarrow> world \<Rightarrow> event list" where
  "new_events w w' = drop (length (w_trace w)) (w_trace w')"

definition units :: "subcategories \<Rightarrow> (string \<times> string) list" where
  "units items = concat (map (\<lambda>(s, bs). map (Pair s) bs) items)"

definition units_before :: "string \<times> string \<Rightarrow> (string \<times> string) list \<Rightarrow> (string \<times> string) list" where
  "units_before u us = takeWhile (\<lambda>v. v \<noteq> u) us"

definition unit_fetches :: "string \<Rightarrow> string \<Rightarrow> event list \<Rightarrow> event list" where
  "unit_fetches s b evs = filter (\<lambda>ev. is_fetch ev \<and> fetch_unit ev = (s, b)) evs"

text \<open>A work list as the loader builds it: no subcategory twice, no brand twice in one.\<close>

definition wf_subs :: "subcategories \<Rightarrow> bool" where
  "wf_subs subs = (distinct (map fst subs) \<and> (\<forall>item\<in>set subs. distinct (snd item)))"

text \<open>
  \<open>grows Q w w'\<close>: the trace of \<open>w'\<close> is the trace of \<open>w\<close> followed by events that all
  satisfy \<open>Q\<close>. The events of the pagination of a unit, of a unit, and of a list of units;
  \<open>G\<close> is a property of the offsets they carry.
\<close>

definition grows :: "(event \<Rightarrow> bool) \<Rightarrow> world \<Rightarrow> world \<Rightarrow> bool" where
  "grows Q w w' = (\<exists>evs. w_trace w' = w_trace w @ evs \<and> (\<forall>ev\<in>set evs. Q ev))"

fun page_ev :: "(int \<Rightarrow> bool) \<Rightarrow> string \<Rightarrow> string \<Rightarrow> event \<Rightarrow> bool" where
  "page_ev G s b (EvPage s' b' st a) = (s' = s \<and> b' = b \<and> G st)"
| "page_ev G s b (EvSaveUrl s' b' u) = (s' = s \<and> b' = b)"
| "page_ev G s b (EvSave c) = G (ck_start c)"
| "page_ev G s b _ = False"

definition unit_ev :: "(int \<Rightarrow> bool) \<Rightarrow> string \<Rightarrow> string \<Rightarrow> event \<Rightarrow> bool" where
  "unit_ev G s b ev = (page_ev G s b ev \<or> ev = EvProbe s b \<or> ev = EvLoadSeen s b)"

definition any_unit_ev :: "(int \<Rightarrow> bool) \<Rightarrow> (string \<times> string) list \<Rightarrow> event \<Rightarrow> bool" where
  "any_unit_ev G us ev = (\<exists>u\<in>set us. unit_ev G (fst u) (snd u) ev)"

text \<open>
  The offsets that a run may persist: non-negative multiples of the page size. \<open>save_ok\<close>
  says so of an event that is a save.
\<close>

fun save_ok :: "event \<Rightarrow> bool" where
  "save_ok (EvSave c) = (0 \<le> ck_start c \<and> ck_start c mod 10 = 0)"
| "save_ok _ = True"

fun is_page :: "event \<Rightarrow> bool" where
  "is_page (EvPage s b st a) = True"
| "is_page _ = False"

definition saved_starts :: "event list \<Rightarrow> int list" where
  "saved_starts evs = concat (map (\<lambda>ev. case ev of EvSave c \<Rightarrow> [ck_start c] | _ \<Rightarrow> []) evs)"

definition aligned :: "int \<Rightarrow> bool" where
  "aligned x = (0 \<le> x \<and> x mod 10 = 0)"

text \<open>
  Two worlds that differ at most in the files and the log, two configurations that differ
  at most so in their worlds, and two environments that differ at most in what goes wrong
  when a checkpoint is saved.
\<close>

definition sim :: "world \<Rightarrow> world \<Rightarrow> bool" where
  "sim w w' = (w_db w = w_db w' \<and> w_trace w = w_trace w')"

definition simc :: "cfg \<Rightarrow> cfg \<Rightarrow> bool" where
  "simc c c' = (fst c = fst c' \<and> fst (snd c) = fst (snd c') \<and> sim (snd (snd c)) (snd (snd c')))"

definition same_but_io :: "env \<Rightarrow> env \<Rightarrow> bool" where
  "same_but_io env env' = (env' = env\<lparr>io_faults := io_faults env'\<rparr>)"

text \<open>
  The value found under \<^verbatim>\<open>results[0].content.results.search_information.total_results_count\<close>
  when every step of that path is a dict (the first one a non-empty list of dicts); \<open>None\<close>
  when the path breaks anywhere or the last key is missing.
\<close>

definition total_field :: "json \<Rightarrow> json option" where
  "total_field data =
     (case data of
        JObj kvs \<Rightarrow>
          (case map_of kvs ''results'' of
             Some (JArr (JObj kvs0 # rest)) \<Rightarrow>
               (case map_of kvs0 ''content'' of
                  Some (JObj kvs1) \<Rightarrow>
                    (case map_of kvs1 ''results'' of
                       Some (JObj kvs2) \<Rightarrow>
                         (case map_of kvs2 ''search_information'' of
                            Some (JObj kvs3) \<Rightarrow> map_of kvs3 ''total_results_count''
                          | _ \<Rightarrow> None)
                     | _ \<Rightarrow> None)
                | _ \<Rightarrow> None)
           | _ \<Rightarrow> None)
      | _ \<Rightarrow> None)"

text \<open>
  A decoded checkpoint on which the model follows the code: any value that is not a
  dict, and a dict that \<open>as_checkpoint\<close> reads. The lines that a call added to the log. A
  sheet whose work list loads. The first sheet
  that the loop of the script passes to \<^verbatim>\<open>crawl\<close>: the sheet that a truthy checkpoint names, if
  the workbook has it, and the first sheet of the workbook when the checkpoint is falsy.
\<close>

text \<open>
  What the loop over the results of a page does with one link: the URL it stores (the link
  up to the first \<^verbatim>\<open>&\<close>), whether it calls \<^verbatim>\<open>save_url\<close> for it (the link is in scope and the
  URL is not in the set of the unit), and what it adds to each tally (1 when that call
  returns true). \<open>true_saves\<close> counts the database calls from \<open>w\<close> to \<open>w'\<close> that the server
  lets run.
\<close>

definition clean_url :: "string \<Rightarrow> string" where
  "clean_url link = takeWhile (\<lambda>ch. ch \<noteq> CHR ''&'') link"

definition tried :: "page_state \<Rightarrow> string \<Rightarrow> bool" where
  "tried st link = (contains ''catawiki.com/en/l/'' link \<and> clean_url link \<notin> seen_urls st)"

definition counted :: "env \<Rightarrow> world \<Rightarrow> page_state \<Rightarrow> string \<Rightarrow> int" where
  "counted env w st link = (if tried st link \<and> db_faults env (n_db w) = DbOk then 1 else 0)"

definition true_saves :: "env \<Rightarrow> world \<Rightarrow> world \<Rightarrow> int" where
  "true_saves env w w' = int (length (filter (\<lambda>k. db_faults env k = DbOk) [n_db w..<n_db w']))"

fun is_save_url :: "string \<Rightarrow> string \<Rightarrow> event \<Rightarrow> bool" where
  "is_save_url s b (EvSaveUrl s' b' u) = (s' = s \<and> b' = b)"
| "is_save_url s b _ = False"

text \<open>
  Two runs of the script that end the same way, after the same calls to the outside in the
  same order, with the same table.
\<close>

definition same_run :: "(exn option \<times> world) option \<Rightarrow> (exn option \<times> world) option \<Rightarrow> bool" where
  "same_run a b =
     (case (a, b) of
        (None, None) \<Rightarrow> True
      | (Some (r, w), Some (r', w')) \<Rightarrow> r = r' \<and> w_trace w = w_trace w' \<and> w_db w = w_db w'
      | _ \<Rightarrow> False)"

definition modelled :: "json \<Rightarrow> bool" where
  "modelled resume =
     (case resume of
        JObj kvs \<Rightarrow> (case as_checkpoint resume of None \<Rightarrow> False | Some rs \<Rightarrow> True)
      | _ \<Rightarrow> True)"

definition new_lines :: "world \<Rightarrow> world \<Rightarrow> logmsg list" where
  "new_lines w w' = drop (length (w_log w)) (w_log w')"

definition loads_ok :: "env \<Rightarrow> string \<Rightarrow> bool" where
  "loads_ok env sheet =
     (case load_subcategories_from_excel (read_sheet env sheet) of
        Inl e \<Rightarrow> False | Inr wl \<Rightarrow> True)"

definition first_crawled :: "json \<Rightarrow> string list \<Rightarrow> string option" where
  "first_crawled resume sheets =
     (if truthy resume then
        (case py_get resume ''sheet'' JNull of
           Inr (JStr s) \<Rightarrow> if s \<in> set sheets then Some s else None
         | _ \<Rightarrow> None)
      else (case sheets of [] \<Rightarrow> None | s # rest \<Rightarrow> Some s))"

section \<open>Concrete inputs\<close>

text \<open>The inputs at which the theorems below are instantiated.\<close>

definition no_files :: fs where
  "no_files = Map.empty"

definition world0 :: world where
  "world0 = \<lparr>w_db = [], w_files = no_files, w_trace = [], w_log = []\<rparr>"

definition lot1 :: string where
  "lot1 = ''https://www.catawiki.com/en/l/1''"

text \<open>A response body with the given organic results and total-count field.\<close>

definition envelope :: "json list \<Rightarrow> json \<Rightarrow> json" where
  "envelope organic tot =
     JObj [(''results'', JArr [JObj [(''content'', JObj [(''results'',
        JObj [(''organic'', JArr organic),
              (''search_information'', JObj [(''total_results_count'', tot)])])])]])]"

definition null_content :: json where
  "null_content = JObj [(''results'', JArr [JObj [(''content'', JNull)]])]"

definition lot_result :: "string \<Rightarrow> json" where
  "lot_result url = JObj [(''url'', JStr url)]"

definition never_db_fault :: "nat \<Rightarrow> db_fault" where
  "never_db_fault k = DbOk"

definition never_io_fault :: "nat \<Rightarrow> io_fault" where
  "never_io_fault k = IoOk"

definition clock0 :: "nat \<Rightarrow> string" where
  "clock0 k = ''2026-01-01T00:00:00''"

definition chunks0 :: "checkpoint \<Rightarrow> string list" where
  "chunks0 c = [''{'', ''}'']"

definition loads0 :: "string \<Rightarrow> exn + json" where
  "loads0 s = Inl ValueError"

definition shoes_book :: "(string \<times> sheet_rows option) list option" where
  "shoes_book = Some [(''S1'', Some [(''Fashion'', ''Shoes'', ''Nike''),
                                      (''Fashion'', ''Shoes'', ''Adidas'')])]"

definition silent_provider :: "nat \<Rightarrow> string \<Rightarrow> int \<Rightarrow> fetch_outcome" where
  "silent_provider k query page = Fail RequestException"

text \<open>An environment without credentials.\<close>

definition env_no_credentials :: env where
  "env_no_credentials =
     \<lparr>OXYLABS_USERNAME = None, OXYLABS_PASSWORD = Some ''secret'',
      provider = silent_provider, db_faults = never_db_fault, io_faults = never_io_fault,
      utcnow = clock0, json_chunks = chunks0, json_loads = loads0, ckpt_stat = None,
      ckpt_readable = True,
      workbook = shoes_book\<rparr>"

text \<open>
  The same without credentials and with two sheets; the same with a checkpoint on disk
  that names a sheet the workbook does not have.
\<close>

definition two_sheets :: "(string \<times> sheet_rows option) list option" where
  "two_sheets = Some [(''S1'', Some [(''Fashion'', ''Shoes'', ''Nike'')]),
                      (''S2'', Some [(''Fashion'', ''Bags'', ''Gucci'')])]"

definition env_two_sheets :: env where
  "env_two_sheets = env_no_credentials\<lparr>workbook := two_sheets\<rparr>"

definition old_sheet_json :: json where
  "old_sheet_json =
     JObj [(''sheet'', JStr ''S0''), (''category'', JStr ''Fashion''),
           (''subcategory'', JStr ''Shoes''), (''brand'', JStr ''Nike''),
           (''start'', JInt 0), (''page_num'', JInt 0), (''timestamp'', JNull)]"

definition loads_old_sheet :: "string \<Rightarrow> exn + json" where
  "loads_old_sheet s = Inr old_sheet_json"

definition env_old_sheet :: env where
  "env_old_sheet = env_no_credentials\<lparr>json_loads := loads_old_sheet\<rparr>"

text \<open>An environment with credentials, a provider that never answers, no faults.\<close>

definition env_quiet :: env where
  "env_quiet =
     \<lparr>OXYLABS_USERNAME = Some ''user'', OXYLABS_PASSWORD = Some ''secret'',
      provider = silent_provider, db_faults = never_db_fault, io_faults = never_io_fault,
      utcnow = clock0, json_chunks = chunks0, json_loads = loads0, ckpt_stat = None,
      ckpt_readable = True,
      workbook = shoes_book\<rparr>"

definition nike_table :: "row list" where
  "nike_table = [(''Fashion'', ''Shoes'', ''Nike'', lot1)]"

definition cs_fresh :: crawl_state where
  "cs_fresh = \<lparr>ck = initial_ck ''S1'' ''Fashion'' None, total_urls_found = 0, log_stats = [],
                skip_until_resume = False\<rparr>"

definition st_fresh :: page_state where
  "st_fresh = \<lparr>start = 0, page_num = 0, brand_urls = 0, consecutive_empty = 0,
                max_start = DEFAULT_MAX_START, seen_urls = {}, found_this_page = 0\<rparr>"

definition world_nike :: world where
  "world_nike = \<lparr>w_db = nike_table, w_files = no_files, w_trace = [], w_log = []\<rparr>"

text \<open>The state after the result \<open>lot1\<close> is processed for Adidas, \<open>lot1\<close> being stored for Nike.\<close>

definition adidas_page :: "exn option \<times> cfg" where
  "adidas_page = process_organic env_quiet ''Fashion'' ''Shoes'' ''Adidas''
                   [lot_result lot1, lot_result lot1] (cs_fresh, st_fresh, world_nike)"

definition adidas_after :: cfg where
  "adidas_after =
     (case process_result env_quiet ''Fashion'' ''Shoes'' ''Adidas'' (lot_result lot1)
             (cs_fresh, st_fresh, world_nike) of
        Inl e \<Rightarrow> (cs_fresh, st_fresh, world_nike)
      | Inr c \<Rightarrow> c)"

text \<open>
  The scenario of the two brands: the sheet \<open>S1\<close> lists Nike and Adidas under Shoes, the
  checkpoint points at Adidas, offset 20, page 2. The provider estimates 25 results on
  page 1 and returns one lot on every other page.
\<close>

definition lot2 :: string where
  "lot2 = ''https://www.catawiki.com/en/l/2-adidas&utm_source=x''"

definition shoes_provider :: "nat \<Rightarrow> string \<Rightarrow> int \<Rightarrow> fetch_outcome" where
  "shoes_provider k query page =
     (if page = 1 then Resp (envelope [] (JStr ''25''))
      else Resp (envelope [lot_result lot2] JNull))"

definition env_shoes :: env where
  "env_shoes =
     \<lparr>OXYLABS_USERNAME = Some ''user'', OXYLABS_PASSWORD = Some ''secret'',
      provider = shoes_provider, db_faults = never_db_fault, io_faults = never_io_fault,
      utcnow = clock0, json_chunks = chunks0, json_loads = loads0, ckpt_stat = None,
      ckpt_readable = True,
      workbook = shoes_book\<rparr>"

definition adidas_ck :: checkpoint where
  "adidas_ck = \<lparr>ck_sheet = ''S1'', ck_category = ''Fashion'', ck_subcategory = Some ''Shoes'',
     ck_brand = Some ''Adidas'', ck_start = 20, ck_page_num = 2, ck_timestamp = None\<rparr>"

text \<open>The same checkpoint as \<^verbatim>\<open>json.load\<close> returns it.\<close>

definition adidas_json :: json where
  "adidas_json =
     JObj [(''sheet'', JStr ''S1''), (''category'', JStr ''Fashion''),
           (''subcategory'', JStr ''Shoes''), (''brand'', JStr ''Adidas''),
           (''start'', JInt 20), (''page_num'', JInt 2), (''timestamp'', JNull)]"

definition shoes_worklist :: "string \<times> subcategories \<times> ((string \<times> string) \<Rightarrow> nat option)" where
  "shoes_worklist =
     (case load_subcategories_from_excel (read_sheet env_shoes ''S1'') of
        Inl e \<Rightarrow> ([], [], Map.empty)
      | Inr wl \<Rightarrow> wl)"

definition resumed_world :: world where
  "resumed_world = snd (the (crawl env_shoes ''S1'' adidas_json world0))"

definition resumed_trace :: "event list" where
  "resumed_trace = w_trace resumed_world"

text \<open>The state of \<^verbatim>\<open>crawl\<close> when it reaches Adidas with that checkpoint.\<close>

definition cs_resuming :: crawl_state where
  "cs_resuming = \<lparr>ck = initial_ck ''S1'' ''Fashion'' (Some adidas_ck), total_urls_found = 0,
                   log_stats = [], skip_until_resume = True\<rparr>"

definition no_rows :: "(string \<times> string) \<Rightarrow> nat option" where
  "no_rows = Map.empty"

definition adidas_unit :: "crawl_state \<times> world" where
  "adidas_unit = crawl_unit env_shoes ''Fashion'' [(''Shoes'', [''Nike'', ''Adidas''])] no_rows
                   (Some adidas_ck) ''Shoes'' ''Adidas'' (cs_resuming, world0)"

text \<open>
  The same scenario as a whole run: the checkpoint is on disk and decodes to the record
  above. Then the first round of a fresh unit, and a fresh unit as a whole.
\<close>

definition loads_adidas :: "string \<Rightarrow> exn + json" where
  "loads_adidas s = Inr adidas_json"

definition env_resume :: env where
  "env_resume = env_shoes\<lparr>json_loads := loads_adidas\<rparr>"

definition ck_files :: fs where
  "ck_files = no_files(CHECKPOINT_FILE \<mapsto> ''{}'')"

definition world_ck :: world where
  "world_ck = \<lparr>w_db = [], w_files = ck_files, w_trace = [], w_log = []\<rparr>"

definition main_world :: world where
  "main_world = snd (the (main env_resume world_ck))"

definition final_ck :: checkpoint where
  "final_ck = (case last (w_trace main_world) of EvSave c \<Rightarrow> c | _ \<Rightarrow> adidas_ck)"

definition first_round :: "verdict \<times> cfg" where
  "first_round = page_step env_resume ''Fashion'' ''Shoes'' ''Nike'' (build_query ''Shoes'' ''Nike'')
                   (cs_fresh, st_fresh, world0)"

definition nike_unit :: "crawl_state \<times> world" where
  "nike_unit = crawl_unit env_resume ''Fashion'' [(''Shoes'', [''Nike'', ''Adidas''])] no_rows
                   None ''Shoes'' ''Nike'' (cs_fresh, world0)"

text \<open>
  A provider that answers the first request of all (an estimate of 25 results) and then
  fails every request; an environment in which no checkpoint can be written.
\<close>

definition flaky_provider :: "nat \<Rightarrow> string \<Rightarrow> int \<Rightarrow> fetch_outcome" where
  "flaky_provider k query page =
     (if k = 0 then Resp (envelope [] (JStr ''25'')) else Fail RequestException)"

definition env_flaky :: env where
  "env_flaky = env_shoes\<lparr>provider := flaky_provider\<rparr>"

definition flaky_unit :: "crawl_state \<times> world" where
  "flaky_unit = crawl_unit env_flaky ''Fashion'' [(''Shoes'', [''Nike'', ''Adidas''])] no_rows
                   None ''Shoes'' ''Nike'' (cs_fresh, world0)"

definition open_always_fails :: "nat \<Rightarrow> io_fault" where
  "open_always_fails k = OpenFails"

text \<open>
  Three ways for the checkpoint on disk to be of no use: it cannot be opened; the test for
  its existence fails; it holds JSON that is no object.
\<close>

definition env_unreadable :: env where
  "env_unreadable = env_shoes\<lparr>ckpt_readable := False\<rparr>"

definition env_stat_fails :: env where
  "env_stat_fails = env_shoes\<lparr>ckpt_stat := Some OSError\<rparr>"

definition loads_list :: "string \<Rightarrow> exn + json" where
  "loads_list s = Inr (JArr [JInt 1, JInt 2])"

definition env_list_file :: env where
  "env_list_file = env_shoes\<lparr>json_loads := loads_list\<rparr>"

definition world_no_ck :: world where
  "world_no_ck = world_ck\<lparr>w_files := (w_files world_ck)(CHECKPOINT_FILE := None)\<rparr>"

section \<open>Storage bridge\<close>

lemma save_url_flag: "fst (save_url fault tbl c s oth u) = (fault = DbOk)"
  by (cases fault) (simp_all add: save_url_def)

lemma save_url_table:
  "snd (save_url fault tbl c s oth u) =
     (if fault = DbOk \<and> u \<notin> row_url ` set tbl then tbl @ [(c, s, oth, u)] else tbl)"
  by (cases fault) (simp_all add: save_url_def insert_on_conflict_do_nothing_def row_url_def)

lemma process_result_effect:
  assumes link: "extract_link_from_result result = Inr link"
    and res: "process_result env CATEGORY subcategory brand result (cs, st, w) = Inr (cs', st', w')"
  shows "found_this_page st' = found_this_page st + counted env w st link
       \<and> brand_urls st' = brand_urls st + counted env w st link
       \<and> total_urls_found cs' = total_urls_found cs + counted env w st link
       \<and> seen_urls st' = (if tried st link then insert (clean_url link) (seen_urls st)
                           else seen_urls st)
       \<and> w_trace w' = w_trace w @ (if tried st link
                                     then [EvSaveUrl subcategory brand (clean_url link)] else [])
       \<and> w_db w' = (if tried st link
                     then snd (save_url (db_faults env (n_db w)) (w_db w)
                                 CATEGORY subcategory brand (clean_url link))
                     else w_db w)"
proof (cases "tried st link")
  case False
  with link res show ?thesis
    by (auto simp: process_result_def bindE_def Let_def tried_def clean_url_def counted_def
             split: if_splits)
next
  case True
  then have t: "contains ''catawiki.com/en/l/'' link"
    "takeWhile (\<lambda>ch. ch \<noteq> CHR ''&'') link \<notin> seen_urls st"
    by (simp_all add: tried_def clean_url_def)
  show ?thesis
  proof (cases "db_faults env (n_db w)")
    case DbOk
    with link res t True show ?thesis
      by (auto simp: process_result_def bindE_def Let_def save_url_def counted_def
            clean_url_def emit_def)
  next
    case ConnFail
    with link res t True show ?thesis
      by (auto simp: process_result_def bindE_def Let_def save_url_def counted_def
            clean_url_def emit_def)
  next
    case StmtFail
    with link res t True show ?thesis
      by (auto simp: process_result_def bindE_def Let_def save_url_def counted_def
            clean_url_def emit_def)
  qed
qed

lemma process_result_link:
  "process_result env CATEGORY subcategory brand result c = Inr c'
   \<Longrightarrow> \<exists>link. extract_link_from_result result = Inr link"
  by (cases c; cases "extract_link_from_result result")
     (auto simp: process_result_def bindE_def)

lemma true_saves_step:
  "n_db w1 = n_db w + (if t then 1 else 0)
   \<Longrightarrow> true_saves env w w1 = (if t \<and> db_faults env (n_db w) = DbOk then 1 else 0)"
  by (simp add: true_saves_def upt_conv_Cons)

lemma true_saves_add:
  "n_db w \<le> n_db w1 \<Longrightarrow> n_db w1 \<le> n_db w2
   \<Longrightarrow> true_saves env w w2 = true_saves env w w1 + true_saves env w1 w2"
proof -
  assume a: "n_db w \<le> n_db w1" "n_db w1 \<le> n_db w2"
  then have "[n_db w..<n_db w2] = [n_db w..<n_db w1] @ [n_db w1..<n_db w2]"
    by (metis le_Suc_ex upt_add_eq_append)
  then show ?thesis by (simp add: true_saves_def)
qed

lemma process_organic_tallies:
  "process_organic env CATEGORY subcategory brand results (cs, st, w) = (r, (cs', st', w'))
   \<Longrightarrow> found_this_page st' = found_this_page st + true_saves env w w'
     \<and> brand_urls st' = brand_urls st + true_saves env w w'
     \<and> total_urls_found cs' = total_urls_found cs + true_saves env w w'
     \<and> n_db w \<le> n_db w'
     \<and> (\<exists>evs. w_trace w' = w_trace w @ evs \<and> (\<forall>ev\<in>set evs. is_save_url subcategory brand ev))"
proof (induction results arbitrary: cs st w)
  case Nil
  then show ?case by (simp add: true_saves_def)
next
  case (Cons result results)
  show ?case
  proof (cases "process_result env CATEGORY subcategory brand result (cs, st, w)")
    case (Inl e)
    with Cons.prems show ?thesis by (simp add: true_saves_def)
  next
    case (Inr c1)
    obtain cs1 st1 w1 where c1: "c1 = (cs1, st1, w1)" by (cases c1) auto
    from process_result_link[OF Inr] obtain link where
      link: "extract_link_from_result result = Inr link" by blast
    note e = process_result_effect[OF link Inr[unfolded c1]]
    from e have tr: "w_trace w1 = w_trace w @ (if tried st link
                       then [EvSaveUrl subcategory brand (clean_url link)] else [])" by simp
    then have nd: "n_db w1 = n_db w + (if tried st link then 1 else 0)"
      by (simp add: n_db_def)
    from true_saves_step[OF nd, of env]
    have ts: "true_saves env w w1 = counted env w st link" by (simp add: counted_def)
    from Cons.prems Inr c1
    have rest: "process_organic env CATEGORY subcategory brand results (cs1, st1, w1)
                  = (r, (cs', st', w'))" by simp
    note ih = Cons.IH[OF rest]
    from ih obtain evs where evs: "w_trace w' = w_trace w1 @ evs"
      "\<forall>ev\<in>set evs. is_save_url subcategory brand ev" by blast
    from nd ih have le: "n_db w \<le> n_db w1" "n_db w1 \<le> n_db w'" by simp_all
    have tw: "w_trace w' = w_trace w @ ((if tried st link
                       then [EvSaveUrl subcategory brand (clean_url link)] else []) @ evs)"
      using tr evs(1) by simp
    have al: "\<forall>ev\<in>set ((if tried st link
                       then [EvSaveUrl subcategory brand (clean_url link)] else []) @ evs).
                 is_save_url subcategory brand ev"
      using evs(2) by auto
    from e ih ts true_saves_add[OF le, of env] le tw al show ?thesis by auto
  qed
qed

text \<open>
  Claim C4, as the code has it. \<^verbatim>\<open>save_url\<close> returns true exactly when the connection was
  obtained and the statement ran; the table then holds the URL, and it gained a row only
  if the URL was not there. A refused connection or a failing statement gives false and
  leaves the table alone; nothing is raised in any case (the result is a pair). For one
  result of a page, \<^verbatim>\<open>save_url\<close> is called exactly when the link is in scope and its cleaned
  URL is not in the unit's in-memory set, to which the URL is then added; the tally of the
  page, the tally of the brand and the total of the run each grow by one exactly when that
  call returned true, and stay as they are otherwise. Over the results of a page, each of
  the three tallies grows by the number of calls of \<^verbatim>\<open>save_url\<close> that returned true, and
  the loop makes no other call.
\<close>

theorem save_url_true_iff_statement_ran:
  "fst (save_url fault tbl c s oth u) = (fault = DbOk)
   \<and> (fault = DbOk \<longrightarrow> u \<in> row_url ` set (snd (save_url fault tbl c s oth u)))
   \<and> (fault \<noteq> DbOk \<or> u \<in> row_url ` set tbl \<longrightarrow> snd (save_url fault tbl c s oth u) = tbl)
   \<and> (extract_link_from_result result = Inr link
        \<and> process_result env CATEGORY subcategory brand result (cs, st, w) = Inr (cs', st', w')
        \<longrightarrow> found_this_page st' = found_this_page st + counted env w st link
            \<and> brand_urls st' = brand_urls st + counted env w st link
            \<and> total_urls_found cs' = total_urls_found cs + counted env w st link
            \<and> seen_urls st' = (if tried st link then insert (clean_url link) (seen_urls st)
                                else seen_urls st)
            \<and> new_events w w' = (if tried st link
                                  then [EvSaveUrl subcategory brand (clean_url link)] else [])
            \<and> w_db w' = (if tried st link
                          then snd (save_url (db_faults env (n_db w)) (w_db w)
                                      CATEGORY subcategory brand (clean_url link))
                          else w_db w))
   \<and> (process_organic env CATEGORY subcategory brand results (cs, st, w) = (r, (cs2, st2, w2))
        \<longrightarrow> found_this_page st2 = found_this_page st + true_saves env w w2
            \<and> brand_urls st2 = brand_urls st + true_saves env w w2
            \<and> total_urls_found cs2 = total_urls_found cs + true_saves env w w2
            \<and> (\<forall>ev\<in>set (new_events w w2). is_save_url subcategory brand ev))"
proof -
  have a: "found_this_page st' = found_this_page st + counted env w st link
            \<and> brand_urls st' = brand_urls st + counted env w st link
            \<and> total_urls_found cs' = total_urls_found cs + counted env w st link
            \<and> seen_urls st' = (if tried st link then insert (clean_url link) (seen_urls st)
                                else seen_urls st)
            \<and> new_events w w' = (if tried st link
                                  then [EvSaveUrl subcategory brand (clean_url link)] else [])
            \<and> w_db w' = (if tried st link
                          then snd (save_url (db_faults env (n_db w)) (w_db w)
                                      CATEGORY subcategory brand (clean_url link))
                          else w_db w)"
    if "extract_link_from_result result = Inr link"
      "process_result env CATEGORY subcategory brand result (cs, st, w) = Inr (cs', st', w')"
    using process_result_effect[OF that] by (simp add: new_events_def)
  have b: "found_this_page st2 = found_this_page st + true_saves env w w2
            \<and> brand_urls st2 = brand_urls st + true_saves env w w2
            \<and> total_urls_found cs2 = total_urls_found cs + true_saves env w w2
            \<and> (\<forall>ev\<in>set (new_events w w2). is_save_url subcategory brand ev)"
    if "process_organic env CATEGORY subcategory brand results (cs, st, w) = (r, (cs2, st2, w2))"
    using process_organic_tallies[OF that] by (auto simp: new_events_def)
  have c: "fst (save_url fault tbl c s oth u) = (fault = DbOk)
   \<and> (fault = DbOk \<longrightarrow> u \<in> row_url ` set (snd (save_url fault tbl c s oth u)))
   \<and> (fault \<noteq> DbOk \<or> u \<in> row_url ` set tbl \<longrightarrow> snd (save_url fault tbl c s oth u) = tbl)"
    by (auto simp: save_url_flag save_url_table row_url_def)
  from a b c show ?thesis by blast
qed

theorem save_url_true_iff_statement_ran_witness:
  "lot1 \<in> row_url ` set nike_table
   \<and> extract_link_from_result (lot_result lot1) = Inr lot1
   \<and> process_result env_quiet ''Fashion'' ''Shoes'' ''Adidas'' (lot_result lot1)
        (cs_fresh, st_fresh, world_nike) = Inr adidas_after
   \<and> fst (save_url DbOk nike_table ''Fashion'' ''Shoes'' ''Adidas'' lot1)
   \<and> snd (save_url DbOk nike_table ''Fashion'' ''Shoes'' ''Adidas'' lot1) = nike_table
   \<and> tried st_fresh lot1 \<and> counted env_quiet world_nike st_fresh lot1 = 1
   \<and> found_this_page (fst (snd adidas_after)) = 1
   \<and> brand_urls (fst (snd adidas_after)) = 1
   \<and> total_urls_found (fst adidas_after) = 1
   \<and> seen_urls (fst (snd adidas_after)) = {lot1}
   \<and> w_db (snd (snd adidas_after)) = nike_table
   \<and> process_organic env_quiet ''Fashion'' ''Shoes'' ''Adidas'' [lot_result lot1, lot_result lot1]
        (cs_fresh, st_fresh, world_nike) = adidas_page
   \<and> true_saves env_quiet world_nike (snd (snd (snd adidas_page))) = 1
   \<and> brand_urls (fst (snd (snd adidas_page))) = 1
   \<and> total_urls_found (fst (snd adidas_page)) = 1"
proof -
  have h1: "lot1 \<in> row_url ` set nike_table"
    by code_simp
  have h2: "extract_link_from_result (lot_result lot1) = Inr lot1"
    by code_simp
  have h4: "contains ''catawiki.com/en/l/'' lot1"
    by code_simp
  have h5: "takeWhile (\<lambda>ch. ch \<noteq> CHR ''&'') lot1 \<notin> seen_urls st_fresh"
    by code_simp
  have h6: "db_faults env_quiet (n_db world_nike) = DbOk"
    by code_simp
  have h3: "process_result env_quiet ''Fashion'' ''Shoes'' ''Adidas'' (lot_result lot1)
        (cs_fresh, st_fresh, world_nike)
          = Inr (fst adidas_after, fst (snd adidas_after), snd (snd adidas_after))"
    by (simp add: adidas_after_def process_result_def h2 h4 h5 h6 bindE_def Let_def
          save_url_def split: prod.splits)
  have h7: "tried st_fresh lot1" by code_simp
  have h8: "counted env_quiet world_nike st_fresh lot1 = 1" by code_simp
  have h9: "clean_url lot1 = lot1" by code_simp
  have h10: "found_this_page st_fresh = 0" "brand_urls st_fresh = 0" "total_urls_found cs_fresh = 0"
    "seen_urls st_fresh = {}" "w_db world_nike = nike_table"
    by (simp_all add: st_fresh_def cs_fresh_def world_nike_def)
  have h11: "process_organic env_quiet ''Fashion'' ''Shoes'' ''Adidas''
               [lot_result lot1, lot_result lot1] (cs_fresh, st_fresh, world_nike)
             = (fst adidas_page, fst (snd adidas_page), fst (snd (snd adidas_page)),
                snd (snd (snd adidas_page)))"
    by (simp add: adidas_page_def)
  have h12: "true_saves env_quiet world_nike (snd (snd (snd adidas_page))) = 1" by code_simp
  note t = save_url_true_iff_statement_ran[of DbOk nike_table "''Fashion''" "''Shoes''" "''Adidas''"
        lot1 "lot_result lot1" lot1 env_quiet "''Fashion''" "''Shoes''" "''Adidas''"
        cs_fresh st_fresh world_nike "fst adidas_after" "fst (snd adidas_after)"
        "snd (snd adidas_after)" "[lot_result lot1, lot_result lot1]"
        "fst adidas_page" "fst (snd adidas_page)" "fst (snd (snd adidas_page))"
        "snd (snd (snd adidas_page))"]
  from t h1 have s1: "fst (save_url DbOk nike_table ''Fashion'' ''Shoes'' ''Adidas'' lot1)"
    "snd (save_url DbOk nike_table ''Fashion'' ''Shoes'' ''Adidas'' lot1) = nike_table"
    by simp_all
  from t h2 h3 h7 h8 h9 h10 s1 have s2: "found_this_page (fst (snd adidas_after)) = 1"
    "brand_urls (fst (snd adidas_after)) = 1"
    "total_urls_found (fst adidas_after) = 1"
    "seen_urls (fst (snd adidas_after)) = {lot1}"
    "w_db (snd (snd adidas_after)) = nike_table"
    by (simp_all add: h6)
  from t h11 h12 h10 have s3: "brand_urls (fst (snd (snd adidas_page))) = 1"
    "total_urls_found (fst (snd adidas_page)) = 1"
    by simp_all
  have h3': "process_result env_quiet ''Fashion'' ''Shoes'' ''Adidas'' (lot_result lot1)
        (cs_fresh, st_fresh, world_nike) = Inr adidas_after"
    using h3 by simp
  have h11': "process_organic env_quiet ''Fashion'' ''Shoes'' ''Adidas''
               [lot_result lot1, lot_result lot1] (cs_fresh, st_fresh, world_nike) = adidas_page"
    by (simp add: adidas_page_def)
  from h1 h2 h3' s1 h7 h8 s2 h11' h12 s3 show ?thesis by blast
qed

text \<open>
  Claim C4 as stated fails: the URL is already stored (under another brand), the call
  inserts nothing, and it returns true.
\<close>

theorem save_url_duplicate_returns_true:
  "save_url DbOk [(''Fashion'', ''Shoes'', ''Nike'', lot1)] ''Fashion'' ''Shoes'' ''Adidas'' lot1
     = (True, [(''Fashion'', ''Shoes'', ''Nike'', lot1)])"
  by (simp add: save_url_def insert_on_conflict_do_nothing_def row_url_def)

section \<open>Result extractor\<close>

text \<open>
  Claim C5 at a payload the extractor can receive: a dict whose first result has
  \<^verbatim>\<open>"content": null\<close>. The lookup \<^verbatim>\<open>content.get\<close> raises AttributeError, which is none of
  the three exceptions the function catches, so it leaves the function.
\<close>

theorem extract_results_raises_on_null_content:
  "extract_results_from_oxylabs null_content = Inl AttributeError"
  by (simp add: extract_results_from_oxylabs_def extract_results_body_def bindE_def
        try_except_def null_content_def)

section \<open>Checkpoint files\<close>

lemma fs_run_writes:
  "fs_run (f(p \<mapsto> acc)) (map (OpWrite p) chunks) = f(p \<mapsto> acc @ concat chunks)"
  by (induction chunks arbitrary: acc) (simp_all add: fs_run_def)

lemma fs_run_append: "fs_run f (xs @ ys) = fs_run (fs_run f xs) ys"
  by (simp add: fs_run_def)

lemma length_save_ops: "length (save_ops chunks) = length chunks + 2"
  by (simp add: save_ops_def Let_def)

lemma take_save_ops:
  "take k (save_ops chunks) =
     (if k = 0 then []
      else if k \<le> length chunks + 1
      then OpOpenW (CHECKPOINT_FILE @ ''.tmp'')
             # map (OpWrite (CHECKPOINT_FILE @ ''.tmp'')) (take (k - 1) chunks)
      else save_ops chunks)"
  by (cases k) (auto simp: save_ops_def Let_def take_map)

lemma fs_run_prefix:
  "fs_run f (OpOpenW p # map (OpWrite p) cs) = f(p \<mapsto> concat cs)"
  using fs_run_writes[of f p "[]" cs] by (simp add: fs_run_def)

lemma fs_run_save_ops:
  "fs_run f (save_ops chunks) =
     (f(CHECKPOINT_FILE \<mapsto> concat chunks))(CHECKPOINT_FILE @ ''.tmp'' := None)"
  unfolding save_ops_def Let_def
  apply (simp only: append_Cons[symmetric] fs_run_append)
  apply (simp add: fs_run_append fs_run_prefix)
  apply (simp add: fs_run_def)
  done

lemma crash_canonical:
  "fs_run f (take k (save_ops chunks)) CHECKPOINT_FILE =
     (if length (save_ops chunks) \<le> k then Some (concat chunks) else f CHECKPOINT_FILE)"
proof -
  consider "k = 0" | "0 < k" "k \<le> length chunks + 1" | "length chunks + 1 < k"
    by linarith
  then show ?thesis
  proof cases
    case 1
    then show ?thesis by (simp add: length_save_ops fs_run_def)
  next
    case 2
    then show ?thesis by (simp add: take_save_ops fs_run_prefix length_save_ops)
  next
    case 3
    then show ?thesis by (simp add: take_save_ops fs_run_save_ops length_save_ops)
  qed
qed

lemma body_canonical:
  "snd (save_checkpoint_body fault chunks f) CHECKPOINT_FILE =
     (if fault = IoOk then Some (concat chunks) else f CHECKPOINT_FILE)"
proof (cases fault)
  case (DumpFails k)
  have "Suc (min k (length chunks)) < length (save_ops chunks)"
    by (simp add: length_save_ops)
  then show ?thesis using DumpFails
    by (simp add: save_checkpoint_body_def crash_canonical)
next
  case ReplaceFails
  have "butlast (save_ops chunks) = take (length chunks + 1) (save_ops chunks)"
    by (simp add: butlast_conv_take length_save_ops)
  then show ?thesis using ReplaceFails
    by (simp add: save_checkpoint_body_def crash_canonical length_save_ops)
qed (simp_all add: save_checkpoint_body_def fs_run_save_ops)

lemma save_ops_targets:
  "OpOpenW CHECKPOINT_FILE \<notin> set (save_ops chunks)
   \<and> OpWrite CHECKPOINT_FILE chunk \<notin> set (save_ops chunks)"
  by (auto simp: save_ops_def Let_def)

text \<open>
  Claim C6. One save is: open the temporary path, write the chunks of the JSON text to
  it, replace the canonical path by it. No operation opens or writes the canonical path.
  If the process stops after any number \<open>k\<close> of these operations, the canonical path holds
  what it held before the save (a file or none) as long as the replace has not run, and
  the complete text once it has; it never holds part of the text. The same is true of a
  save that ends by an exception at any of its steps.
\<close>

theorem checkpoint_save_atomic:
  "fs_run f (take k (save_ops chunks)) CHECKPOINT_FILE =
     (if k < length (save_ops chunks) then f CHECKPOINT_FILE else Some (concat chunks))
   \<and> OpOpenW CHECKPOINT_FILE \<notin> set (save_ops chunks)
   \<and> OpWrite CHECKPOINT_FILE chunk \<notin> set (save_ops chunks)
   \<and> last (save_ops chunks) = OpReplace (CHECKPOINT_FILE @ ''.tmp'') CHECKPOINT_FILE
   \<and> snd (save_checkpoint_body fault chunks f) CHECKPOINT_FILE =
       (if fault = IoOk then Some (concat chunks) else f CHECKPOINT_FILE)"
proof -
  have "last (save_ops chunks) = OpReplace (CHECKPOINT_FILE @ ''.tmp'') CHECKPOINT_FILE"
    by (simp add: save_ops_def Let_def)
  moreover have "fs_run f (take k (save_ops chunks)) CHECKPOINT_FILE =
     (if k < length (save_ops chunks) then f CHECKPOINT_FILE else Some (concat chunks))"
    by (simp add: crash_canonical not_le)
  ultimately show ?thesis
    using save_ops_targets[of chunks chunk] body_canonical[of fault chunks f] by simp
qed

section \<open>Missing credentials\<close>

lemma crawl_no_credentials:
  assumes "unset (OXYLABS_USERNAME env) \<or> unset (OXYLABS_PASSWORD env)"
  shows "crawl env sheet_name resume_state w =
     (case load_subcategories_from_excel (read_sheet env sheet_name) of
        Inl e \<Rightarrow> Some (Some e, w)
      | Inr wl \<Rightarrow> Some (None, say LogCredentialsMissing w))"
  using assms by (auto simp: crawl_def split: sum.splits prod.splits)

lemma crawl_no_credentials_cases:
  assumes "unset (OXYLABS_USERNAME env) \<or> unset (OXYLABS_PASSWORD env)"
  shows "crawl env sheet_name resume_state w =
     (if loads_ok env sheet_name then Some (None, say LogCredentialsMissing w)
      else Some (Some (case load_subcategories_from_excel (read_sheet env sheet_name) of
                         Inl e \<Rightarrow> e | Inr wl \<Rightarrow> OtherException), w))"
  by (simp add: crawl_no_credentials[OF assms] loads_ok_def split: sum.splits)

lemma first_crawled_skip:
  "truthy resume \<Longrightarrow> py_get resume ''sheet'' JNull = Inr sh \<Longrightarrow> sh \<noteq> JStr sheet
   \<Longrightarrow> first_crawled resume (sheet # sheets) = first_crawled resume sheets"
  by (cases sh) (auto simp: first_crawled_def)

lemma main_loop_no_credentials:
  assumes "unset (OXYLABS_USERNAME env) \<or> unset (OXYLABS_PASSWORD env)"
  shows "\<exists>w' ls. main_loop env sheets resume w = Some w'
       \<and> w_trace w' = w_trace w \<and> w_files w' = w_files w \<and> w_db w' = w_db w
       \<and> w_log w' = w_log w @ ls
       \<and> (LogCredentialsMissing \<in> set ls
            \<longleftrightarrow> (\<exists>s. first_crawled resume sheets = Some s \<and> loads_ok env s))"
proof (induction sheets arbitrary: resume w)
  case Nil
  show ?case by (simp add: first_crawled_def split: sum.splits json.splits)
next
  case (Cons sheet sheets)
  note c = crawl_no_credentials_cases[OF assms, of sheet]
  show ?case
  proof (cases "truthy resume")
    case False
    show ?thesis
    proof (cases "loads_ok env sheet")
      case True
      from Cons.IH[of resume "say LogCredentialsMissing w"] obtain w' ls where
        r: "main_loop env sheets resume (say LogCredentialsMissing w) = Some w'"
          "w_trace w' = w_trace w" "w_files w' = w_files w" "w_db w' = w_db w"
          "w_log w' = w_log w @ LogCredentialsMissing # ls"
        by (auto simp: say_def)
      with False True show ?thesis
        by (simp add: c[of JNull w] first_crawled_def)
    next
      case lf: False
      with False show ?thesis
        by (simp add: c[of JNull w] first_crawled_def say_def)
    qed
  next
    case True
    show ?thesis
    proof (cases "py_get resume ''sheet'' JNull")
      case (Inl e)
      with True show ?thesis by (simp add: first_crawled_def say_def)
    next
      case (Inr sh)
      show ?thesis
      proof (cases "sh = JStr sheet")
        case ne: False
        from Cons.IH[of resume "say (LogSkipSheet sheet) w"] obtain w' ls where
          r: "main_loop env sheets resume (say (LogSkipSheet sheet) w) = Some w'"
            "w_trace w' = w_trace w" "w_files w' = w_files w" "w_db w' = w_db w"
            "w_log w' = w_log w @ LogSkipSheet sheet # ls"
          and m: "LogCredentialsMissing \<in> set ls
                   \<longleftrightarrow> (\<exists>s. first_crawled resume sheets = Some s \<and> loads_ok env s)"
          by (auto simp: say_def)
        from m have "LogCredentialsMissing \<in> set (LogSkipSheet sheet # ls)
                   \<longleftrightarrow> (\<exists>s. first_crawled resume (sheet # sheets) = Some s \<and> loads_ok env s)"
          by (simp add: first_crawled_skip[OF True Inr ne])
        with True Inr ne r show ?thesis by simp
      next
        case eq: True
        have fc: "first_crawled resume (sheet # sheets) = Some sheet"
          using True Inr eq by (simp add: first_crawled_def)
        show ?thesis
        proof (cases "loads_ok env sheet")
          case lt: True
          from Cons.IH[of JNull "say LogCredentialsMissing w"] obtain w' ls where
            r: "main_loop env sheets JNull (say LogCredentialsMissing w) = Some w'"
              "w_trace w' = w_trace w" "w_files w' = w_files w" "w_db w' = w_db w"
              "w_log w' = w_log w @ LogCredentialsMissing # ls"
            by (auto simp: say_def)
          with True Inr eq lt fc show ?thesis by (simp add: c[of resume w])
        next
          case lf: False
          with True Inr eq fc show ?thesis by (simp add: c[of resume w] say_def)
        qed
      qed
    qed
  qed
qed

lemma main_loop_fresh_log:
  assumes "unset (OXYLABS_USERNAME env) \<or> unset (OXYLABS_PASSWORD env)"
    and "\<not> truthy resume" and "\<forall>s\<in>set sheets. loads_ok env s"
  shows "\<exists>w'. main_loop env sheets resume w = Some w'
           \<and> w_log w' = w_log w @ replicate (length sheets) LogCredentialsMissing"
  using assms(3)
proof (induction sheets arbitrary: w)
  case Nil
  show ?case by simp
next
  case (Cons sheet sheets)
  from Cons.prems have l: "loads_ok env sheet" and rest: "\<forall>s\<in>set sheets. loads_ok env s"
    by simp_all
  from Cons.IH[OF rest, of "say LogCredentialsMissing w"] obtain w' where
    "main_loop env sheets resume (say LogCredentialsMissing w) = Some w'"
    "w_log w' = w_log w @ LogCredentialsMissing # replicate (length sheets) LogCredentialsMissing"
    by (auto simp: say_def)
  with assms(2) l show ?case
    by (simp add: crawl_no_credentials_cases[OF assms(1), of sheet JNull w])
qed

text \<open>
  Claim C9, as the code has it. Without a user name or a password in the environment, a
  whole run (any workbook, any checkpoint on disk) returns and makes no call to the
  outside: the trace gains no event, so no request to the provider, no database call, no
  unit and no checkpoint save; the files and the table are what they were. Every
  \<^verbatim>\<open>crawl\<close> whose work list loads logs the error and returns normally, so the loop of the
  script goes on with the next sheet. The error is in the log of the run exactly when
  the first sheet that the run passes to \<^verbatim>\<open>crawl\<close> exists and loads; on a run without a
  checkpoint whose sheets all load it is logged once for every sheet, and the run ends
  without an exception.
\<close>

theorem no_credentials_no_work:
  assumes "unset (OXYLABS_USERNAME env) \<or> unset (OXYLABS_PASSWORD env)"
  shows "\<exists>r w'. main env w = Some (r, w')
       \<and> w_trace w' = w_trace w \<and> w_files w' = w_files w \<and> w_db w' = w_db w
       \<and> (\<forall>resume sheets.
             fst (load_checkpoint (ckpt_stat env) (ckpt_readable env) (json_loads env) (w_files w))
               = Inr resume
             \<and> workbook env = Some sheets \<longrightarrow>
               (LogCredentialsMissing \<in> set (new_lines w w')
                  \<longleftrightarrow> (\<exists>s. first_crawled resume (map fst sheets) = Some s \<and> loads_ok env s))
             \<and> (\<not> truthy resume \<and> (\<forall>s\<in>set (map fst sheets). loads_ok env s) \<longrightarrow>
                  r = None
                  \<and> filter (\<lambda>m. m \<noteq> LogCheckpointReadFailed) (new_lines w w')
                      = replicate (length sheets) LogCredentialsMissing))
       \<and> crawl env sheet_name resume_state w0 =
           (case load_subcategories_from_excel (read_sheet env sheet_name) of
              Inl e \<Rightarrow> Some (Some e, w0)
            | Inr wl \<Rightarrow> Some (None, say LogCredentialsMissing w0))"
proof -
  obtain res msgs where
    lc: "load_checkpoint (ckpt_stat env) (ckpt_readable env) (json_loads env) (w_files w) = (res, msgs)"
    by (cases "load_checkpoint (ckpt_stat env) (ckpt_readable env) (json_loads env) (w_files w)") auto
  have msgs: "set msgs \<subseteq> {LogCheckpointReadFailed}"
    using lc by (auto simp: load_checkpoint_def Let_def split: option.splits sum.splits)
  define w1 where "w1 = w\<lparr>w_log := w_log w @ msgs\<rparr>"
  note cr = crawl_no_credentials[OF assms, of sheet_name resume_state w0]
  show ?thesis
  proof (cases res)
    case (Inl e)
    with lc cr show ?thesis by (simp add: main_def)
  next
    case (Inr resume)
    show ?thesis
    proof (cases "workbook env")
      case None
      with lc Inr cr show ?thesis by (simp add: main_def say_def)
    next
      case (Some sheets)
      from main_loop_no_credentials[OF assms, of "map fst sheets" resume w1] obtain w' ls where
        ml: "main_loop env (map fst sheets) resume w1 = Some w'"
        and same: "w_trace w' = w_trace w" "w_files w' = w_files w" "w_db w' = w_db w"
        and lg: "w_log w' = w_log w @ msgs @ ls"
        and m: "LogCredentialsMissing \<in> set ls
                 \<longleftrightarrow> (\<exists>s. first_crawled resume (map fst sheets) = Some s \<and> loads_ok env s)"
        by (auto simp: w1_def)
      have mn: "main env w = Some (None, w')"
        using lc Inr Some ml by (simp add: main_def w1_def)
      have nl: "new_lines w w' = msgs @ ls" using lg by (simp add: new_lines_def)
      have a: "LogCredentialsMissing \<in> set (new_lines w w')
                 \<longleftrightarrow> (\<exists>s. first_crawled resume (map fst sheets) = Some s \<and> loads_ok env s)"
        using m msgs by (auto simp: nl)
      have b: "filter (\<lambda>m. m \<noteq> LogCheckpointReadFailed) (new_lines w w')
                      = replicate (length sheets) LogCredentialsMissing"
        if f: "\<not> truthy resume" and al: "\<forall>s\<in>set (map fst sheets). loads_ok env s"
      proof -
        from main_loop_fresh_log[OF assms f al, of w1] ml
        have "w_log w' = w_log w1 @ replicate (length (map fst sheets)) LogCredentialsMissing"
          by auto
        with lg have ls: "ls = replicate (length sheets) LogCredentialsMissing"
          by (simp add: w1_def)
        have "filter (\<lambda>m. m \<noteq> LogCheckpointReadFailed) msgs = []"
          using msgs by (auto simp: filter_empty_conv)
        then show ?thesis by (simp add: nl ls)
      qed
      from mn same a b cr lc Inr Some show ?thesis by auto
    qed
  qed
qed

theorem no_credentials_no_work_witness:
  "(unset (OXYLABS_USERNAME env_no_credentials) \<or> unset (OXYLABS_PASSWORD env_no_credentials))
   \<and> w_trace (snd (the (main env_no_credentials world0))) = []
   \<and> w_db (snd (the (main env_no_credentials world0))) = []
   \<and> fst (load_checkpoint (ckpt_stat env_no_credentials) (ckpt_readable env_no_credentials)
             (json_loads env_no_credentials) (w_files world0)) = Inr JNull
   \<and> workbook env_no_credentials = shoes_book
   \<and> first_crawled JNull [''S1''] = Some ''S1'' \<and> loads_ok env_no_credentials ''S1''
   \<and> LogCredentialsMissing \<in> set (new_lines world0 (snd (the (main env_no_credentials world0))))
   \<and> fst (the (main env_no_credentials world0)) = None
   \<and> crawl env_no_credentials ''S1'' JNull world0 = Some (None, say LogCredentialsMissing world0)"
proof -
  have h: "unset (OXYLABS_USERNAME env_no_credentials) \<or> unset (OXYLABS_PASSWORD env_no_credentials)"
    by (simp add: env_no_credentials_def unset_def)
  have l: "load_subcategories_from_excel (read_sheet env_no_credentials ''S1'')
             = Inr (''Fashion'', load_rows [(''Fashion'', ''Shoes'', ''Nike''),
                      (''Fashion'', ''Shoes'', ''Adidas'')] 0 ([], Map.empty))"
    by (simp add: load_subcategories_from_excel_def read_sheet_def env_no_credentials_def
          shoes_book_def py_strip_def is_space_def)
  have lc: "fst (load_checkpoint (ckpt_stat env_no_credentials) (ckpt_readable env_no_credentials)
             (json_loads env_no_credentials) (w_files world0)) = Inr JNull"
    by code_simp
  have wb: "workbook env_no_credentials = Some [(''S1'', Some [(''Fashion'', ''Shoes'', ''Nike''),
                                      (''Fashion'', ''Shoes'', ''Adidas'')])]"
    by (simp add: env_no_credentials_def shoes_book_def)
  have fc: "first_crawled JNull [''S1''] = Some ''S1''" by code_simp
  have lo: "loads_ok env_no_credentials ''S1''" by code_simp
  from no_credentials_no_work[OF h, of world0 "''S1''" JNull world0] obtain r w' where
    m: "main env_no_credentials world0 = Some (r, w')"
    and s: "w_trace w' = w_trace world0" "w_db w' = w_db world0"
    and g: "\<forall>resume sheets.
             fst (load_checkpoint (ckpt_stat env_no_credentials) (ckpt_readable env_no_credentials)
                    (json_loads env_no_credentials) (w_files world0)) = Inr resume
             \<and> workbook env_no_credentials = Some sheets \<longrightarrow>
               (LogCredentialsMissing \<in> set (new_lines world0 w')
                  \<longleftrightarrow> (\<exists>s. first_crawled resume (map fst sheets) = Some s
                            \<and> loads_ok env_no_credentials s))
             \<and> (\<not> truthy resume \<and> (\<forall>s\<in>set (map fst sheets). loads_ok env_no_credentials s) \<longrightarrow>
                  r = None
                  \<and> filter (\<lambda>m. m \<noteq> LogCheckpointReadFailed) (new_lines world0 w')
                      = replicate (length sheets) LogCredentialsMissing)"
    and c: "crawl env_no_credentials ''S1'' JNull world0 =
           (case load_subcategories_from_excel (read_sheet env_no_credentials ''S1'') of
              Inl e \<Rightarrow> Some (Some e, world0)
            | Inr wl \<Rightarrow> Some (None, say LogCredentialsMissing world0))"
    by blast
  from g[rule_format, OF conjI[OF lc wb]] fc lo
  have lg: "LogCredentialsMissing \<in> set (new_lines world0 w')" "r = None"
    by auto
  have c': "crawl env_no_credentials ''S1'' JNull world0
              = Some (None, say LogCredentialsMissing world0)"
    using c by (simp add: l)
  have tr: "w_trace (snd (the (main env_no_credentials world0))) = []"
    "w_db (snd (the (main env_no_credentials world0))) = []"
    using m s by (simp_all add: world0_def)
  have wb': "workbook env_no_credentials = shoes_book"
    by (simp add: env_no_credentials_def)
  from m lg have r: "fst (the (main env_no_credentials world0)) = None"
    "LogCredentialsMissing \<in> set (new_lines world0 (snd (the (main env_no_credentials world0))))"
    by simp_all
  from h tr lc wb' fc lo r c' show ?thesis by blast
qed

text \<open>
  Claim C9 as stated fails on two points. The run does not stop at the error: with two
  sheets it is logged twice, once by each call of \<^verbatim>\<open>crawl\<close>, and the script ends without an
  exception. And the error is not always logged: with a checkpoint on disk for a sheet
  that the workbook does not have, every sheet is passed over and the only line logged
  is the one of the skipped sheet.
\<close>

theorem missing_credentials_logged_per_sheet_or_not_at_all:
  "(unset (OXYLABS_USERNAME env_two_sheets) \<or> unset (OXYLABS_PASSWORD env_two_sheets))
   \<and> w_log (snd (the (main env_two_sheets world0)))
       = [LogCredentialsMissing, LogCredentialsMissing]
   \<and> fst (the (main env_two_sheets world0)) = None
   \<and> (unset (OXYLABS_USERNAME env_old_sheet) \<or> unset (OXYLABS_PASSWORD env_old_sheet))
   \<and> w_log (snd (the (main env_old_sheet world_ck))) = [LogSkipSheet ''S1'']"
  by code_simp

section \<open>How the trace grows\<close>

lemma grows_refl [simp]: "grows Q w w"
  by (simp add: grows_def)

lemma grows_trans: "grows Q w w1 \<Longrightarrow> grows Q w1 w2 \<Longrightarrow> grows Q w w2"
  by (auto simp: grows_def)

lemma grows_mono: "grows Q w w' \<Longrightarrow> (\<And>ev. Q ev \<Longrightarrow> Q' ev) \<Longrightarrow> grows Q' w w'"
  by (auto simp: grows_def)

lemma grows_emit: "Q ev \<Longrightarrow> grows Q w w' \<Longrightarrow> grows Q w (emit ev w')"
  by (auto simp: grows_def emit_def)

lemma grows_say [simp]: "grows Q w (say m w') = grows Q w w'"
  by (simp add: grows_def say_def)

lemma grows_db [simp]: "grows Q w (w'\<lparr>w_db := d\<rparr>) = grows Q w w'"
  by (simp add: grows_def)

lemma trace_save_checkpoint [simp]:
  "w_trace (save_checkpoint env c w) = w_trace w @ [EvSave c]"
  by (simp add: save_checkpoint_def split: prod.splits)

lemma grows_save: "Q (EvSave c) \<Longrightarrow> grows Q w (save_checkpoint env c w)"
  by (simp add: grows_def)

lemma fetch_retry_grows:
  "G st \<Longrightarrow> fetch_retry env s b q st atts w = (r, w') \<Longrightarrow> grows (page_ev G s b) w w'"
proof (induction atts arbitrary: w)
  case Nil
  then show ?case by simp
next
  case (Cons a atts)
  have e: "grows (page_ev G s b) w (emit (EvPage s b st a) w)"
    using Cons.prems(1) by (simp add: grows_emit)
  show ?case
  proof (cases "oxylabs_search env w q st RESULTS_PER_PAGE")
    case (Resp d)
    with Cons.prems e show ?thesis by (auto simp: Let_def)
  next
    case (Fail x)
    show ?thesis
    proof (cases "x = RequestException")
      case True
      with Fail Cons.prems
      have "fetch_retry env s b q st atts (emit (EvPage s b st a) w) = (r, w')"
        by (simp add: Let_def)
      from Cons.IH[OF Cons.prems(1) this] e show ?thesis by (blast intro: grows_trans)
    next
      case False
      with Fail Cons.prems e show ?thesis by (auto simp: Let_def)
    qed
  qed
qed

lemma process_result_grows:
  assumes "process_result env C s b result (cs, st, w) = Inr (cs', st', w')"
  shows "grows (page_ev G s b) w w' \<and> ck cs' = ck cs
       \<and> skip_until_resume cs' = skip_until_resume cs
       \<and> start st' = start st \<and> max_start st' = max_start st \<and> page_num st' = page_num st
       \<and> consecutive_empty st' = consecutive_empty st"
  using assms
  by (auto simp: process_result_def bindE_def Let_def grows_emit
           split: sum.splits if_splits prod.splits)

lemma process_organic_grows:
  "process_organic env C s b results (cs, st, w) = (r, (cs', st', w'))
   \<Longrightarrow> grows (page_ev G s b) w w' \<and> ck cs' = ck cs
       \<and> skip_until_resume cs' = skip_until_resume cs
       \<and> start st' = start st \<and> max_start st' = max_start st \<and> page_num st' = page_num st
       \<and> consecutive_empty st' = consecutive_empty st"
proof (induction results arbitrary: cs st w)
  case Nil
  then show ?case by simp
next
  case (Cons result results)
  show ?case
  proof (cases "process_result env C s b result (cs, st, w)")
    case (Inl e)
    with Cons.prems show ?thesis by simp
  next
    case (Inr c1)
    obtain cs1 st1 w1 where c1: "c1 = (cs1, st1, w1)" by (cases c1) auto
    note a = process_result_grows[OF Inr[unfolded c1], of G]
    from Cons.prems Inr c1
    have "process_organic env C s b results (cs1, st1, w1) = (r, (cs', st', w'))" by simp
    from Cons.IH[OF this] a show ?thesis
      by (auto intro: grows_trans)
  qed
qed

lemma ceiling_check_facts:
  "ceiling_check (cs, st, w) = (v, (cs', st', w'))
   \<Longrightarrow> cs' = cs \<and> w' = w \<and> (start st' = start st \<or> start st' = start st + RESULTS_PER_PAGE)"
  by (auto simp: ceiling_check_def split: if_splits)

lemma finish_page_facts:
  "finish_page (cs, st, w) = (v, (cs', st', w'))
   \<Longrightarrow> cs' = cs \<and> w' = w \<and> (start st' = start st \<or> start st' = start st + RESULTS_PER_PAGE)"
  by (auto simp: finish_page_def Let_def split: if_splits dest!: ceiling_check_facts)

lemma handle_page_grows:
  assumes "handle_page env C s b data (cs, st, w) = (v, (cs', st', w'))"
  shows "grows (page_ev G s b) w w' \<and> ck cs' = ck cs
       \<and> skip_until_resume cs' = skip_until_resume cs
       \<and> (start st' = start st \<or> start st' = start st + RESULTS_PER_PAGE)"
  using assms
  apply (auto simp: handle_page_def split: sum.splits prod.splits option.splits
              dest!: finish_page_facts process_organic_grows[where G=G])
  done

lemma page_step_grows:
  assumes "G (start st)"
    and "page_step env C s b q (cs, st, w) = (v, (cs', st', w'))"
  shows "grows (page_ev G s b) w w' \<and> ck_start (ck cs') = start st
       \<and> skip_until_resume cs' = skip_until_resume cs
       \<and> (start st' = start st \<or> start st' = start st + RESULTS_PER_PAGE)"
proof -
  let ?c1 = "(ck cs)\<lparr>ck_start := start st, ck_page_num := page_num st,
                   ck_timestamp := Some (utcnow env (length (w_trace w)))\<rparr>"
  let ?w1 = "save_checkpoint env ?c1 w"
  obtain r w2 where fr: "fetch_retry env s b q (start st) [1..<MAX_RETRIES + 1] ?w1 = (r, w2)"
    by (cases "fetch_retry env s b q (start st) [1..<MAX_RETRIES + 1] ?w1") auto
  have g1: "grows (page_ev G s b) w ?w1"
    using assms(1) by (simp add: grows_save)
  have g2: "grows (page_ev G s b) w w2"
    using g1 fetch_retry_grows[where G=G, OF assms(1) fr] by (rule grows_trans)
  show ?thesis
  proof (cases r)
    case (Inl e)
    with assms(2) fr g2 show ?thesis by (auto simp: page_step_def Let_def)
  next
    case (Inr data)
    show ?thesis
    proof (cases "data = JNull")
      case True
      with Inr assms(2) fr g2 show ?thesis by (auto simp: page_step_def Let_def)
    next
      case False
      with Inr assms(2) fr
      have "handle_page env C s b data (cs\<lparr>ck := ?c1\<rparr>, st, w2) = (v, (cs', st', w'))"
        by (auto simp: page_step_def Let_def)
      from handle_page_grows[OF this, of G] g2 show ?thesis
        by (auto intro: grows_trans)
    qed
  qed
qed

lemma paginate_grows:
  assumes cl: "\<And>x. G x \<Longrightarrow> G (x + 10)"
  shows "G (start st) \<Longrightarrow> G (ck_start (ck cs))
   \<Longrightarrow> paginate env C s b q (cs, st, w) = (r, (cs', st', w'))
   \<Longrightarrow> grows (page_ev G s b) w w' \<and> G (ck_start (ck cs')) \<and> G (start st')
       \<and> skip_until_resume cs' = skip_until_resume cs"
proof (induction env C s b q "(cs, st, w)" arbitrary: cs st w rule: paginate.induct)
  case (1 env C s b q)
  show ?case
  proof (cases "start st \<le> max_start st")
    case False
    with "1.prems" show ?thesis by (simp add: paginate.simps)
  next
    case True
    obtain v cs1 st1 w1 where ps: "page_step env C s b q (cs, st, w) = (v, (cs1, st1, w1))"
      by (cases "page_step env C s b q (cs, st, w)") auto
    note f = page_step_grows[where G=G, OF "1.prems"(1) ps]
    have g1: "G (start st1)" using f "1.prems"(1) cl by (auto simp: RESULTS_PER_PAGE_def)
    have g2: "G (ck_start (ck cs1))" using f "1.prems"(1) by simp
    show ?thesis
    proof (cases v)
      case Continue
      with "1.prems"(3) True ps
      have "paginate env C s b q (cs1, st1, w1) = (r, (cs', st', w'))"
        by (simp add: paginate.simps)
      from "1.hyps"[OF _ ps[symmetric] Continue g1 g2 this] True f show ?thesis
        by (auto intro: grows_trans)
    next
      case Break
      with "1.prems"(3) True ps f g1 g2 show ?thesis by (auto simp: paginate.simps)
    next
      case (Raise e)
      with "1.prems"(3) True ps f g1 g2 show ?thesis by (auto simp: paginate.simps)
    qed
  qed
qed

lemma n_simps [simp]:
  "w_trace (emit ev w) = w_trace w @ [ev]"
  "w_trace (say m w) = w_trace w"
  by (simp_all add: emit_def say_def)

lemma unit_body_grows:
  assumes cl: "\<And>x. G x \<Longrightarrow> G (x + 10)"
    and rs: "\<And>rs. resume_state = Some rs \<Longrightarrow> G (ck_start rs)"
    and st: "G (start st)" and ck: "G (ck_start (ck cs))"
    and ub: "unit_body env C SUBS resume_state s b (cs, st, w) = (r, (cs', st', w'))"
  shows "grows (unit_ev G s b) w w' \<and> G (ck_start (ck cs'))
       \<and> (skip_until_resume cs' \<longrightarrow> skip_until_resume cs)"
proof -
  define act where "act = (if skip_until_resume cs
               then (case resume_state of
                       None \<Rightarrow> Inr (Proceed, None)
                     | Some rs \<Rightarrow>
                         bindE (resume_logic SUBS rs s b) (\<lambda>a. Inr (a, Some rs)))
               else Inr (Proceed, None))"
  show ?thesis
  proof (cases act)
    case (Inl e)
    with ub ck show ?thesis by (simp add: unit_body_def act_def)
  next
    case (Inr ar)
    obtain a ro where ar: "ar = (a, ro)" by (cases ar) auto
    have ro: "ro = None \<or> ro = resume_state"
      using Inr ar by (auto simp: act_def bindE_def split: if_splits option.splits sum.splits)
    show ?thesis
    proof (cases "a = SkipBrand")
      case True
      with Inr ar ub ck show ?thesis by (simp add: unit_body_def act_def)
    next
      case False
      define st1 where "st1 = (case (a, ro) of
                           (ResumeHere, Some rs) \<Rightarrow>
                             st\<lparr>start := ck_start rs, page_num := ck_page_num rs\<rparr>
                         | _ \<Rightarrow> st)"
      define cs1 where "cs1 = (if a = ResumeHere then cs\<lparr>skip_until_resume := False\<rparr> else cs)"
      define cs2 where "cs2 = cs1\<lparr>ck := (ck cs1)\<lparr>ck_subcategory := Some s,
                                            ck_brand := Some b,
                                            ck_start := start st1,
                                            ck_page_num := page_num st1\<rparr>\<rparr>"
      have gst1: "G (start st1)"
        using st rs ro by (auto simp: st1_def split: resume_action.splits option.splits)
      have gck2: "G (ck_start (ck cs2))" using gst1 by (simp add: cs2_def)
      have sk: "skip_until_resume cs2 \<longrightarrow> skip_until_resume cs"
        by (simp add: cs2_def cs1_def)
      from False Inr ar ub obtain w3 sn ms where
        p: "paginate env C s b (build_query s b) (cs2, st1\<lparr>seen_urls := sn, max_start := ms\<rparr>, w3)
              = (r, (cs', st', w'))"
        and w3: "w_trace w3 = w_trace w @ [EvLoadSeen s b, EvProbe s b]"
        by (cases a) (auto simp: unit_body_def act_def[symmetric] Let_def st1_def cs1_def cs2_def
              split: sum.splits)
      have g3: "grows (unit_ev G s b) w w3" using w3 by (simp add: grows_def unit_ev_def)
      have "G (start (st1\<lparr>seen_urls := sn, max_start := ms\<rparr>))" using gst1 by simp
      note pg = paginate_grows[where G=G, OF cl this gck2 p]
      then have "grows (unit_ev G s b) w3 w'"
        by (auto elim!: grows_mono simp: unit_ev_def)
      with pg g3 sk show ?thesis
        by (auto intro: grows_trans)
    qed
  qed
qed

lemma crawl_unit_grows:
  assumes cl: "\<And>x. G x \<Longrightarrow> G (x + 10)"
    and rs: "\<And>rs. resume_state = Some rs \<Longrightarrow> G (ck_start rs)"
    and z: "G 0" and ck: "G (ck_start (ck cs))"
    and cu: "crawl_unit env C SUBS RM resume_state s b (cs, w) = (cs', w')"
  shows "grows (unit_ev G s b) w w' \<and> G (ck_start (ck cs'))
       \<and> (skip_until_resume cs' \<longrightarrow> skip_until_resume cs)"
proof -
  let ?st0 = "\<lparr>start = 0, page_num = 0, brand_urls = 0, consecutive_empty = 0,
                    max_start = DEFAULT_MAX_START, seen_urls = {}, found_this_page = 0\<rparr>"
  obtain r cs1 st1 w1 where
    ub: "unit_body env C SUBS resume_state s b (cs, ?st0, w) = (r, (cs1, st1, w1))"
    by (cases "unit_body env C SUBS resume_state s b (cs, ?st0, w)") auto
  have "G (start ?st0)" using z by simp
  note f = unit_body_grows[where G=G, OF cl rs this ck ub]
  from cu ub have cs': "ck cs' = ck cs1" "skip_until_resume cs' = skip_until_resume cs1"
    and w': "w_trace w' = w_trace w1 @ [EvSave (ck cs1)]"
    by (auto simp: crawl_unit_def Let_def split: option.splits)
  have "grows (unit_ev G s b) w1 w'" using w' f by (simp add: grows_def unit_ev_def)
  with f cs' show ?thesis by (auto intro: grows_trans)
qed

lemma units_Cons [simp]: "units ((s, bs) # items) = map (Pair s) bs @ units items"
  by (simp add: units_def)

lemma units_Nil [simp]: "units [] = []"
  by (simp add: units_def)

lemma units_append [simp]: "units (xs @ ys) = units xs @ units ys"
  by (simp add: units_def)

lemma any_unit_ev_append:
  "any_unit_ev G (us @ vs) ev = (any_unit_ev G us ev \<or> any_unit_ev G vs ev)"
  by (auto simp: any_unit_ev_def)

lemma any_unit_ev_Cons:
  "any_unit_ev G (u # us) ev = (unit_ev G (fst u) (snd u) ev \<or> any_unit_ev G us ev)"
  by (auto simp: any_unit_ev_def)

lemma crawl_brands_grows:
  assumes cl: "\<And>x. G x \<Longrightarrow> G (x + 10)"
    and rs: "\<And>rs. resume_state = Some rs \<Longrightarrow> G (ck_start rs)"
    and z: "G 0"
  shows "G (ck_start (ck cs))
    \<Longrightarrow> crawl_brands env C SUBS RM resume_state s brands (cs, w) = (cs', w')
    \<Longrightarrow> grows (any_unit_ev G (map (Pair s) brands)) w w' \<and> G (ck_start (ck cs'))
       \<and> (skip_until_resume cs' \<longrightarrow> skip_until_resume cs)"
proof (induction brands arbitrary: cs w)
  case Nil
  then show ?case by simp
next
  case (Cons b brands)
  obtain cs1 w1 where cu: "crawl_unit env C SUBS RM resume_state s b (cs, w) = (cs1, w1)"
    by (cases "crawl_unit env C SUBS RM resume_state s b (cs, w)") auto
  note f = crawl_unit_grows[where G=G, OF cl rs z Cons.prems(1) cu]
  from Cons.prems(2) cu
  have "crawl_brands env C SUBS RM resume_state s brands (cs1, w1) = (cs', w')" by simp
  note g = Cons.IH[OF _ this]
  have a: "grows (any_unit_ev G (map (Pair s) (b # brands))) w w1"
    using f by (auto elim!: grows_mono simp: any_unit_ev_def)
  have b: "grows (any_unit_ev G (map (Pair s) (b # brands))) w1 w'"
    using g f by (auto elim!: grows_mono simp: any_unit_ev_def)
  from a b f g show ?case by (auto intro: grows_trans)
qed

lemma crawl_subs_grows:
  assumes cl: "\<And>x. G x \<Longrightarrow> G (x + 10)"
    and rs: "\<And>rs. resume_state = Some rs \<Longrightarrow> G (ck_start rs)"
    and z: "G 0"
  shows "G (ck_start (ck cs))
    \<Longrightarrow> crawl_subs env C SUBS RM resume_state items (cs, w) = (cs', w')
    \<Longrightarrow> grows (any_unit_ev G (units items)) w w' \<and> G (ck_start (ck cs'))
       \<and> (skip_until_resume cs' \<longrightarrow> skip_until_resume cs)"
proof (induction items arbitrary: cs w)
  case Nil
  then show ?case by simp
next
  case (Cons item items)
  obtain s bs where item: "item = (s, bs)" by (cases item) auto
  have mono1: "any_unit_ev G (map (Pair s) bs) ev \<Longrightarrow> any_unit_ev G (units (item # items)) ev" for ev
    by (simp add: item any_unit_ev_append)
  have mono2: "any_unit_ev G (units items) ev \<Longrightarrow> any_unit_ev G (units (item # items)) ev" for ev
    by (simp add: item any_unit_ev_append)
  show ?case
  proof (cases "skip_until_resume cs \<and>
         (case resume_state of None \<Rightarrow> False | Some rs \<Rightarrow> Some s \<noteq> ck_subcategory rs)")
    case True
    with Cons.prems(2) item
    have "crawl_subs env C SUBS RM resume_state items (cs, w) = (cs', w')" by simp
    from Cons.IH[OF Cons.prems(1) this] show ?thesis
      by (auto elim!: grows_mono mono2)
  next
    case False
    obtain cs1 w1 where cb: "crawl_brands env C SUBS RM resume_state s bs (cs, w) = (cs1, w1)"
      by (cases "crawl_brands env C SUBS RM resume_state s bs (cs, w)") auto
    note f = crawl_brands_grows[where G=G, OF cl rs z Cons.prems(1) cb]
    from False Cons.prems(2) item cb
    have "crawl_subs env C SUBS RM resume_state items (cs1, w1) = (cs', w')" by auto
    note g = Cons.IH[OF _ this]
    have a: "grows (any_unit_ev G (units (item # items))) w w1"
      using f by (auto elim!: grows_mono mono1)
    have b: "grows (any_unit_ev G (units (item # items))) w1 w'"
      using g f by (auto elim!: grows_mono mono2)
    from a b f g show ?thesis by (auto intro: grows_trans)
  qed
qed

section \<open>Work lists and the resume point\<close>

lemma add_brand_keys: "fst ` set (add_brand subs s b) = insert s (fst ` set subs)"
  by (induction subs s b rule: add_brand.induct) auto

lemma add_brand_wf: "wf_subs subs \<Longrightarrow> wf_subs (add_brand subs s b)"
proof (induction subs s b rule: add_brand.induct)
  case (1 s b)
  then show ?case by (simp add: wf_subs_def)
next
  case (2 s' bs rest s b)
  show ?case
  proof (cases "s' = s")
    case True
    with 2 show ?thesis by (auto simp: wf_subs_def)
  next
    case False
    with 2 have "wf_subs (add_brand rest s b)" by (simp add: wf_subs_def)
    with False 2 show ?thesis
      using add_brand_keys[of rest s b] by (auto simp: wf_subs_def)
  qed
qed

lemma load_rows_wf: "wf_subs (fst acc) \<Longrightarrow> wf_subs (fst (load_rows rows idx acc))"
proof (induction rows idx acc rule: load_rows.induct)
  case (1 idx acc)
  then show ?case by simp
next
  case (2 cat sub br rows idx subs row_mapping)
  then show ?case by (simp add: Let_def add_brand_wf)
qed

lemma loader_wf:
  assumes a: "load_subcategories_from_excel sheet = Inr (C, SUBS, RM)"
  shows "wf_subs SUBS"
proof -
  from a obtain rows where "SUBS = fst (load_rows rows 0 ([], Map.empty))"
    by (auto simp: load_subcategories_from_excel_def simp del: load_rows.simps
             split: option.splits list.splits) (metis fst_conv)
  then show ?thesis using load_rows_wf[of "([], Map.empty)" rows 0]
    by (simp add: wf_subs_def)
qed

lemma py_index_found:
  "b \<in> set xs \<Longrightarrow> \<exists>i. py_index (xs @ ys) b = Inr i \<and> i < length xs"
  by (induction xs) (auto simp: bindE_def)

lemma py_index_at:
  "B \<notin> set xs \<Longrightarrow> py_index (xs @ B # ys) B = Inr (length xs)"
  by (induction xs) (auto simp: bindE_def)

lemma crawl_subs_skip:
  assumes "skip_until_resume cs" "resume_state = Some rs" "ck_subcategory rs = Some S"
  shows "S \<notin> fst ` set pre \<Longrightarrow>
     crawl_subs env C SUBS RM resume_state (pre @ rest) (cs, w)
       = crawl_subs env C SUBS RM resume_state rest (cs, w)"
  using assms by (induction pre) auto

lemma resume_logic_skip:
  assumes "ck_subcategory rs = Some S" "ck_brand rs = Some B"
    and "map_of SUBS S = Some (bpre @ B # bpost)" "b \<in> set bpre" "B \<notin> set bpre"
  shows "resume_logic SUBS rs S b = Inr SkipBrand"
proof -
  from assms(4,5) have ne: "b \<noteq> B" by auto
  from py_index_found[OF assms(4), of "B # bpost"] obtain i where
    i: "py_index (bpre @ B # bpost) b = Inr i" "i < length bpre" by auto
  have "Some B \<notin> set (map Some bpre)" using assms(5) by auto
  from py_index_at[OF this, of "map Some bpost"]
  have j: "py_index (map Some (bpre @ B # bpost)) (Some B) = Inr (length bpre)" by simp
  show ?thesis
    using assms(1,2,3) ne i j
    by (simp add: resume_logic_def Let_def bindE_def try_except_def)
qed

lemma resume_logic_here:
  assumes "ck_subcategory rs = Some S" "ck_brand rs = Some B"
  shows "resume_logic SUBS rs S B = Inr ResumeHere"
  using assms by (simp add: resume_logic_def Let_def bindE_def)

lemma crawl_unit_skip:
  assumes "skip_until_resume cs" "resume_state = Some rs"
    and "ck_subcategory rs = Some S" "ck_brand rs = Some B"
    and "map_of SUBS S = Some (bpre @ B # bpost)" "b \<in> set bpre" "B \<notin> set bpre"
    and cu: "crawl_unit env C SUBS RM resume_state S b (cs, w) = (cs', w')"
  shows "w_trace w' = w_trace w @ [EvSave (ck cs)] \<and> skip_until_resume cs' \<and> ck cs' = ck cs"
  using cu assms(1,2) resume_logic_skip[OF assms(3-7)]
  by (auto simp: crawl_unit_def unit_body_def Let_def bindE_def)

lemma crawl_brands_skip:
  assumes "resume_state = Some rs"
    and "ck_subcategory rs = Some S" "ck_brand rs = Some B"
    and "map_of SUBS S = Some (bpre @ B # bpost)" "B \<notin> set bpre"
  shows "skip_until_resume cs \<Longrightarrow> set xs \<subseteq> set bpre
    \<Longrightarrow> crawl_brands env C SUBS RM resume_state S (xs @ rest) (cs, w) = (cs', w')
    \<Longrightarrow> \<exists>cs1 w1. crawl_brands env C SUBS RM resume_state S rest (cs1, w1) = (cs', w')
          \<and> skip_until_resume cs1 \<and> ck cs1 = ck cs
          \<and> grows is_save w w1"
proof (induction xs arbitrary: cs w)
  case Nil
  then show ?case by (intro exI[of _ cs] exI[of _ w]) simp
next
  case (Cons b xs)
  obtain cs0 w0 where cu: "crawl_unit env C SUBS RM resume_state S b (cs, w) = (cs0, w0)"
    by (cases "crawl_unit env C SUBS RM resume_state S b (cs, w)") auto
  from Cons.prems(2) have b: "b \<in> set bpre" by simp
  note f = crawl_unit_skip[OF Cons.prems(1) assms(1-4) b assms(5) cu]
  from Cons.prems(3) cu
  have "crawl_brands env C SUBS RM resume_state S (xs @ rest) (cs0, w0) = (cs', w')" by simp
  from Cons.IH[OF _ _ this] f Cons.prems(2) obtain cs1 w1 where
    r: "crawl_brands env C SUBS RM resume_state S rest (cs1, w1) = (cs', w')"
       "skip_until_resume cs1" "ck cs1 = ck cs0" "grows is_save w0 w1" by auto
  have "grows is_save w w0" using f by (simp add: grows_def)
  with r f show ?case by (auto intro: grows_trans)
qed

lemma fetch_retry_first:
  assumes "G st" "fetch_retry env s b q st (a # atts) w = (r, w')"
  shows "\<exists>rest. w_trace w' = w_trace w @ EvPage s b st a # rest
            \<and> (\<forall>ev\<in>set rest. page_ev G s b ev)"
proof -
  let ?w1 = "emit (EvPage s b st a) w"
  have "grows (page_ev G s b) ?w1 w'"
  proof (cases "oxylabs_search env w q st RESULTS_PER_PAGE")
    case (Resp d)
    with assms(2) show ?thesis by (auto simp: Let_def)
  next
    case (Fail x)
    with assms show ?thesis
      by (cases "x = RequestException") (auto simp: Let_def dest: fetch_retry_grows[where G=G])
  qed
  then show ?thesis by (auto simp: grows_def)
qed

lemma attempts: "[1..<MAX_RETRIES + 1] = 1 # [2..<6]"
  by (simp add: MAX_RETRIES_def upt_rec)

lemma page_step_first:
  assumes ps: "page_step env C s b q (cs, st, w) = (v, (cs', st', w'))"
    and G: "G (start st)"
  shows "(\<exists>rest. w_trace w' = w_trace w @ EvSave (ck cs') # EvPage s b (start st) 1 # rest
            \<and> (\<forall>ev\<in>set rest. page_ev G s b ev))
       \<and> ck cs' = (ck cs)\<lparr>ck_start := start st, ck_page_num := page_num st,
                   ck_timestamp := Some (utcnow env (length (w_trace w)))\<rparr>"
proof -
  let ?c1 = "(ck cs)\<lparr>ck_start := start st, ck_page_num := page_num st,
                   ck_timestamp := Some (utcnow env (length (w_trace w)))\<rparr>"
  let ?w1 = "save_checkpoint env ?c1 w"
  obtain r w2 where fr: "fetch_retry env s b q (start st) [1..<MAX_RETRIES + 1] ?w1 = (r, w2)"
    by (cases "fetch_retry env s b q (start st) [1..<MAX_RETRIES + 1] ?w1") auto
  from fetch_retry_first[where G=G, OF G fr[unfolded attempts]] obtain rest1 where
    w2: "w_trace w2 = w_trace w @ EvSave ?c1 # EvPage s b (start st) 1 # rest1"
    and r1: "\<forall>ev\<in>set rest1. page_ev G s b ev" by auto
  from ps fr have ps': "(case r of Inl e \<Rightarrow> (Raise e, (cs\<lparr>ck := ?c1\<rparr>, st, w2))
       | Inr data \<Rightarrow> if data = JNull then
                  (Continue,
                   (cs\<lparr>ck := ?c1\<rparr>,
                    st\<lparr>consecutive_empty := consecutive_empty st + 1,
                       start := start st + RESULTS_PER_PAGE\<rparr>,
                    say (LogPageSkipped s b (start st)) w2))
                else handle_page env C s b data (cs\<lparr>ck := ?c1\<rparr>, st, w2))
       = (v, (cs', st', w'))"
    by (auto simp: page_step_def Let_def split: sum.splits)
  have "grows (page_ev G s b) w2 w' \<and> ck cs' = ?c1"
  proof (cases r)
    case (Inl e)
    with ps' show ?thesis by auto
  next
    case (Inr data)
    show ?thesis
    proof (cases "data = JNull")
      case True
      with Inr ps' show ?thesis by auto
    next
      case False
      with Inr ps'
      have "handle_page env C s b data (cs\<lparr>ck := ?c1\<rparr>, st, w2) = (v, (cs', st', w'))"
        by auto
      from handle_page_grows[OF this, of G] show ?thesis by simp
    qed
  qed
  with w2 r1 show ?thesis by (auto simp: grows_def)
qed

lemma paginate_first:
  assumes le: "start st \<le> max_start st"
    and p: "paginate env C s b q (cs, st, w) = (r, (cs', st', w'))"
  shows "\<exists>rest. w_trace w' = w_trace w
             @ EvSave ((ck cs)\<lparr>ck_start := start st, ck_page_num := page_num st,
                   ck_timestamp := Some (utcnow env (length (w_trace w)))\<rparr>)
             # EvPage s b (start st) 1 # rest
           \<and> (\<forall>ev\<in>set rest. page_ev (\<lambda>x. True) s b ev)"
proof -
  obtain v cs1 st1 w1 where ps: "page_step env C s b q (cs, st, w) = (v, (cs1, st1, w1))"
    by (cases "page_step env C s b q (cs, st, w)") auto
  from page_step_first[where G="\<lambda>x. True", OF ps] obtain rest1 where
    w1: "w_trace w1 = w_trace w
             @ EvSave ((ck cs)\<lparr>ck_start := start st, ck_page_num := page_num st,
                   ck_timestamp := Some (utcnow env (length (w_trace w)))\<rparr>)
             # EvPage s b (start st) 1 # rest1"
    and r1: "\<forall>ev\<in>set rest1. page_ev (\<lambda>x. True) s b ev" by auto
  have "grows (page_ev (\<lambda>x. True) s b) w1 w'"
  proof (cases v)
    case Continue
    with p le ps have "paginate env C s b q (cs1, st1, w1) = (r, (cs', st', w'))"
      by (simp add: paginate.simps)
    from paginate_grows[where G="\<lambda>x. True", OF _ _ _ this] show ?thesis by simp
  next
    case Break
    with p le ps show ?thesis by (simp add: paginate.simps)
  next
    case (Raise e)
    with p le ps show ?thesis by (simp add: paginate.simps)
  qed
  with w1 r1 show ?thesis by (auto simp: grows_def)
qed

text \<open>The resumed unit.\<close>

lemma crawl_unit_resume:
  assumes sk: "skip_until_resume cs" and rs: "resume_state = Some rs"
    and sub: "ck_subcategory rs = Some S" and br: "ck_brand rs = Some B"
    and cu: "crawl_unit env C SUBS RM resume_state S B (cs, w) = (cs', w')"
  defines "m \<equiv> probe_max_start (oxylabs_search env (emit (EvLoadSeen S B) w)
                   (build_query S B) 0 RESULTS_PER_PAGE)"
  defines "c0 \<equiv> (ck cs)\<lparr>ck_subcategory := Some S, ck_brand := Some B,
                    ck_start := ck_start rs, ck_page_num := ck_page_num rs\<rparr>"
  shows "\<exists>rest. w_trace w' = w_trace w @ EvLoadSeen S B # EvProbe S B # rest
          \<and> (\<forall>ev\<in>set rest. page_ev (\<lambda>x. True) S B ev)
          \<and> (ck_start rs \<le> m \<longrightarrow>
               (\<exists>rest'. rest = EvSave (c0\<lparr>ck_timestamp :=
                                  Some (utcnow env (length (w_trace w) + 2))\<rparr>)
                          # EvPage S B (ck_start rs) 1 # rest'))
          \<and> (\<not> ck_start rs \<le> m \<longrightarrow> rest = [EvSave c0])"
    and "\<not> skip_until_resume cs'"
proof -
  let ?st0 = "\<lparr>start = 0, page_num = 0, brand_urls = 0, consecutive_empty = 0,
                    max_start = DEFAULT_MAX_START, seen_urls = {}, found_this_page = 0\<rparr>"
  obtain r cs1 st1 w1 where
    ub: "unit_body env C SUBS resume_state S B (cs, ?st0, w) = (r, (cs1, st1, w1))"
    by (cases "unit_body env C SUBS resume_state S B (cs, ?st0, w)") auto
  from cu ub have cs': "ck cs' = ck cs1" "skip_until_resume cs' = skip_until_resume cs1"
    and w': "w_trace w' = w_trace w1 @ [EvSave (ck cs1)]"
    by (auto simp: crawl_unit_def Let_def split: option.splits)
  define cs2 where "cs2 = cs\<lparr>skip_until_resume := False, ck := c0\<rparr>"
  from ub sk rs resume_logic_here[OF sub br, of SUBS] obtain w3 sn where
    p: "paginate env C S B (build_query S B)
          (cs2, ?st0\<lparr>start := ck_start rs, page_num := ck_page_num rs,
                     seen_urls := sn, max_start := m\<rparr>, w3) = (r, (cs1, st1, w1))"
    and w3: "w_trace w3 = w_trace w @ [EvLoadSeen S B, EvProbe S B]"
    by (auto simp: unit_body_def Let_def bindE_def m_def cs2_def c0_def split: sum.splits)
  let ?st = "?st0\<lparr>start := ck_start rs, page_num := ck_page_num rs,
                     seen_urls := sn, max_start := m\<rparr>"
  from paginate_grows[where G="\<lambda>x. True", OF _ _ _ p]
  have g: "grows (page_ev (\<lambda>x. True) S B) w3 w1" and sk1: "\<not> skip_until_resume cs1"
    by (simp_all add: cs2_def)
  show "\<not> skip_until_resume cs'" using sk1 cs' by simp
  show "\<exists>rest. w_trace w' = w_trace w @ EvLoadSeen S B # EvProbe S B # rest
          \<and> (\<forall>ev\<in>set rest. page_ev (\<lambda>x. True) S B ev)
          \<and> (ck_start rs \<le> m \<longrightarrow>
               (\<exists>rest'. rest = EvSave (c0\<lparr>ck_timestamp :=
                                  Some (utcnow env (length (w_trace w) + 2))\<rparr>)
                          # EvPage S B (ck_start rs) 1 # rest'))
          \<and> (\<not> ck_start rs \<le> m \<longrightarrow> rest = [EvSave c0])"
  proof (cases "ck_start rs \<le> m")
    case True
    then have "start ?st \<le> max_start ?st" by simp
    from paginate_first[OF this p] obtain rest1 where
      "w_trace w1 = w_trace w3
             @ EvSave ((ck cs2)\<lparr>ck_start := start ?st, ck_page_num := page_num ?st,
                   ck_timestamp := Some (utcnow env (length (w_trace w3)))\<rparr>)
             # EvPage S B (start ?st) 1 # rest1"
      and "\<forall>ev\<in>set rest1. page_ev (\<lambda>x. True) S B ev" by blast
    with True w3 w' show ?thesis
      by (simp add: cs2_def c0_def)
  next
    case False
    with p have "(cs1, st1, w1) = (cs2, ?st, w3)"
      by (simp add: paginate.simps)
    with False w3 w' show ?thesis by (simp add: cs2_def)
  qed
qed

lemma page_ev_fetch: "page_ev G s b ev \<Longrightarrow> is_fetch ev \<Longrightarrow> fetch_unit ev = (s, b)"
  by (cases ev) auto

lemma unit_ev_fetch: "unit_ev G s b ev \<Longrightarrow> is_fetch ev \<Longrightarrow> fetch_unit ev = (s, b)"
  by (cases ev) (auto simp: unit_ev_def)

lemma any_unit_ev_fetch: "any_unit_ev G us ev \<Longrightarrow> is_fetch ev \<Longrightarrow> fetch_unit ev \<in> set us"
  by (auto simp: any_unit_ev_def dest: unit_ev_fetch)

lemma saves_no_fetch: "\<forall>ev\<in>set xs. is_save ev \<Longrightarrow> filter is_fetch xs = []"
proof (induction xs)
  case (Cons x xs)
  then show ?case by (cases x) auto
qed simp

lemma units_split:
  assumes wf: "wf_subs SUBS" and u: "(S, B) \<in> set (units SUBS)"
  shows "\<exists>pre bpre bpost post. SUBS = pre @ (S, bpre @ B # bpost) # post
           \<and> S \<notin> fst ` set pre \<and> S \<notin> fst ` set post \<and> B \<notin> set bpre \<and> B \<notin> set bpost
           \<and> map_of SUBS S = Some (bpre @ B # bpost)
           \<and> set (units pre @ map (Pair S) bpre) \<inter> set ((S, B) # map (Pair S) bpost @ units post) = {}"
proof -
  from u obtain bs where m: "(S, bs) \<in> set SUBS" and b: "B \<in> set bs"
    by (auto simp: units_def)
  from m obtain pre post where sp: "SUBS = pre @ (S, bs) # post"
    by (auto dest: split_list)
  from b obtain bpre bpost where bsp: "bs = bpre @ B # bpost"
    by (auto dest: split_list)
  from wf sp have d: "distinct (map fst pre @ S # map fst post)" "distinct bs"
    by (auto simp: wf_subs_def)
  then have k: "S \<notin> fst ` set pre" "S \<notin> fst ` set post" "fst ` set pre \<inter> fst ` set post = {}"
    by auto
  from d bsp have bb: "B \<notin> set bpre" "B \<notin> set bpost" "set bpre \<inter> set bpost = {}" by auto
  have mo: "map_of SUBS S = Some bs"
    using wf m by (simp add: wf_subs_def)
  have fu: "x \<in> set (units xs) \<Longrightarrow> fst x \<in> fst ` set xs" for xs :: subcategories and x
    by (induction xs) (auto simp: image_iff)
  have "x \<notin> set ((S, B) # map (Pair S) bpost @ units post)"
    if x: "x \<in> set (units pre @ map (Pair S) bpre)" for x
  proof (cases "x \<in> set (units pre)")
    case True
    from fu[OF True] have f: "fst x \<in> fst ` set pre" .
    with k(1) have n: "fst x \<noteq> S" by auto
    have "x \<notin> set (units post)" using fu[of x post] f k(3) by auto
    with n show ?thesis by auto
  next
    case False
    with x obtain b where xb: "x = (S, b)" "b \<in> set bpre" by auto
    have "x \<notin> set (units post)" using fu[of x post] xb k(2) by auto
    with xb bb show ?thesis by auto
  qed
  then have "set (units pre @ map (Pair S) bpre)
        \<inter> set ((S, B) # map (Pair S) bpost @ units post) = {}"
    by blast
  with sp bsp k bb mo show ?thesis by blast
qed


lemma n_fetch_saves: "\<forall>ev\<in>set xs. is_save ev \<Longrightarrow>
   w_trace w1 = w_trace w @ EvInitDb # xs \<Longrightarrow> n_fetch (emit (EvLoadSeen S B) w1) = n_fetch w"
  by (simp add: n_fetch_def saves_no_fetch)

lemma init_db_ok: "f \<noteq> StmtFail \<Longrightarrow> init_db f = Inr ()"
  by (cases f) (simp_all add: init_db_def)

lemma as_checkpoint_dict: "as_checkpoint rj = Some rs \<Longrightarrow> \<exists>kvs. rj = JObj kvs"
  by (cases rj) (simp_all add: as_checkpoint_def)

lemma crawl_defined:
  assumes "as_checkpoint rj = Some rs"
  shows "\<exists>r w'. crawl env sheet_name rj w = Some (r, w')"
proof -
  from as_checkpoint_dict[OF assms] obtain kvs where rj: "rj = JObj kvs" by blast
  show ?thesis
    using assms unfolding rj
    by (auto simp: crawl_def crawl_units_def Let_def split: sum.splits prod.splits)
qed

lemma crawl_modelled:
  assumes "modelled rj"
  shows "\<exists>r w'. crawl env sheet_name rj w = Some (r, w')"
proof (cases "\<exists>kvs. rj = JObj kvs")
  case True
  with assms obtain rs where "as_checkpoint rj = Some rs"
    by (auto simp: modelled_def split: option.splits)
  then show ?thesis by (rule crawl_defined)
next
  case False
  then have n: "rj \<noteq> JObj kvs" for kvs by blast
  show ?thesis
    by (cases rj)
       (auto simp: n crawl_def crawl_units_def Let_def split: sum.splits prod.splits)
qed

lemma main_loop_modelled:
  "modelled resume \<Longrightarrow> \<exists>w'. main_loop env sheets resume w = Some w'"
proof (induction sheets arbitrary: resume w)
  case Nil
  show ?case by simp
next
  case (Cons sheet sheets)
  have nul: "modelled JNull" by (simp add: modelled_def)
  from crawl_modelled[OF Cons.prems, of env sheet w] obtain r w1 where
    c: "crawl env sheet resume w = Some (r, w1)" by blast
  from crawl_modelled[OF nul, of env sheet w] obtain r0 w0 where
    c0: "crawl env sheet JNull w = Some (r0, w0)" by blast
  from Cons.IH[OF Cons.prems] Cons.IH[OF nul] c c0 show ?case
    by (cases r; cases r0) (auto split: sum.splits)
qed

lemma main_modelled:
  assumes "\<And>rj. fst (load_checkpoint (ckpt_stat env) (ckpt_readable env) (json_loads env)
                          (w_files w)) = Inr rj \<Longrightarrow> modelled rj"
  shows "\<exists>r w'. main env w = Some (r, w')"
proof -
  obtain res msgs where
    lc: "load_checkpoint (ckpt_stat env) (ckpt_readable env) (json_loads env) (w_files w) = (res, msgs)"
    by (cases "load_checkpoint (ckpt_stat env) (ckpt_readable env) (json_loads env) (w_files w)") auto
  show ?thesis
  proof (cases res)
    case (Inl e)
    with lc show ?thesis by (simp add: main_def)
  next
    case (Inr resume)
    with assms lc have "modelled resume" by simp
    from main_loop_modelled[OF this] lc Inr show ?thesis
      by (cases "workbook env") (auto simp: main_def Let_def)
  qed
qed

lemma crawl_resume_shape:
  assumes load: "load_subcategories_from_excel (read_sheet env sheet_name) = Inr (C, SUBS, RM)"
    and creds: "\<not> unset (OXYLABS_USERNAME env)" "\<not> unset (OXYLABS_PASSWORD env)"
    and initdb: "db_faults env (n_db w) \<noteq> StmtFail"
    and dec: "as_checkpoint rj = Some rs"
    and sub: "ck_subcategory rs = Some S" and br: "ck_brand rs = Some B"
    and sp: "SUBS = pre @ (S, bpre @ B # bpost) # post"
    and k: "S \<notin> fst ` set pre" "B \<notin> set bpre" "map_of SUBS S = Some (bpre @ B # bpost)"
    and run: "crawl env sheet_name rj w = Some (r, w')"
  defines "m \<equiv> probe_max_start (provider env (n_fetch w) (build_query S B) 1)"
  shows "\<exists>saves rest later.
           w_trace w' = w_trace w @ EvInitDb # saves @ EvLoadSeen S B # EvProbe S B # rest @ later
         \<and> (\<forall>ev\<in>set saves. is_save ev)
         \<and> (\<forall>ev\<in>set rest. page_ev (\<lambda>x. True) S B ev)
         \<and> (\<forall>ev\<in>set later. any_unit_ev (\<lambda>x. True) (map (Pair S) bpost @ units post) ev)
         \<and> (ck_start rs \<le> m \<longrightarrow>
               (\<exists>c rest'. rest = EvSave c # EvPage S B (ck_start rs) 1 # rest'))"
proof -
  let ?G = "\<lambda>x::int. True"
  let ?rs = "Some rs"
  define cs0 where "cs0 = \<lparr>ck = initial_ck sheet_name C ?rs,
                                total_urls_found = 0, log_stats = [],
                                skip_until_resume = (?rs \<noteq> None)\<rparr>"
  define w0 where "w0 = emit EvInitDb w"
  obtain cs9 w9 where cs: "crawl_subs env C SUBS RM ?rs SUBS (cs0, w0) = (cs9, w9)"
    by (cases "crawl_subs env C SUBS RM ?rs SUBS (cs0, w0)") auto
  from as_checkpoint_dict[OF dec] obtain kvs where rj: "rj = JObj kvs" by blast
  from run load creds init_db_ok[OF initdb] cs dec
  have w': "w_trace w' = w_trace w9"
    by (auto simp: crawl_def crawl_units_def Let_def cs0_def w0_def rj say_def)
  have sk0: "skip_until_resume cs0" by (simp add: cs0_def)
  obtain csb wb where cb: "crawl_brands env C SUBS RM ?rs S (bpre @ B # bpost) (cs0, w0) = (csb, wb)"
    by (cases "crawl_brands env C SUBS RM ?rs S (bpre @ B # bpost) (cs0, w0)") auto
  from cs have "crawl_subs env C SUBS RM ?rs ((S, bpre @ B # bpost) # post) (cs0, w0) = (cs9, w9)"
    unfolding sp using crawl_subs_skip[OF sk0 refl sub k(1)] by simp
  with cb sub have cpost: "crawl_subs env C SUBS RM ?rs post (csb, wb) = (cs9, w9)"
    by simp
  from crawl_brands_skip[OF refl sub br k(3) k(2) sk0 subset_refl cb] obtain cs1 w1 where
    cb1: "crawl_brands env C SUBS RM ?rs S (B # bpost) (cs1, w1) = (csb, wb)"
    and sk1: "skip_until_resume cs1" and g1: "grows is_save w0 w1" by blast
  from g1 obtain saves where w1: "w_trace w1 = w_trace w @ EvInitDb # saves"
    and sv: "\<forall>ev\<in>set saves. is_save ev"
    by (auto simp: grows_def w0_def)
  obtain cs2 w2 where cu: "crawl_unit env C SUBS RM ?rs S B (cs1, w1) = (cs2, w2)"
    by (cases "crawl_unit env C SUBS RM ?rs S B (cs1, w1)") auto
  have m: "probe_max_start (oxylabs_search env (emit (EvLoadSeen S B) w1)
                   (build_query S B) 0 RESULTS_PER_PAGE) = m"
    by (simp add: oxylabs_search_def n_fetch_saves[OF sv w1] m_def RESULTS_PER_PAGE_def)
  from crawl_unit_resume(1)[OF sk1 refl sub br cu] obtain rest where
    w2: "w_trace w2 = w_trace w1 @ EvLoadSeen S B # EvProbe S B # rest"
    and r1: "\<forall>ev\<in>set rest. page_ev ?G S B ev"
    and r2: "ck_start rs \<le> m \<longrightarrow> (\<exists>c rest'. rest = EvSave c # EvPage S B (ck_start rs) 1 # rest')"
    unfolding m by blast
  from cb1 cu have "crawl_brands env C SUBS RM ?rs S bpost (cs2, w2) = (csb, wb)" by simp
  from crawl_brands_grows[where G="?G", OF _ _ _ _ this]
  have g3: "grows (any_unit_ev ?G (map (Pair S) bpost)) w2 wb" by simp
  from crawl_subs_grows[where G="?G", OF _ _ _ _ cpost]
  have g4: "grows (any_unit_ev ?G (units post)) wb w9" by simp
  have "grows (any_unit_ev ?G (map (Pair S) bpost @ units post)) w2 wb"
    using g3 by (rule grows_mono) (simp add: any_unit_ev_append)
  moreover have "grows (any_unit_ev ?G (map (Pair S) bpost @ units post)) wb w9"
    using g4 by (rule grows_mono) (simp add: any_unit_ev_append)
  ultimately have "grows (any_unit_ev ?G (map (Pair S) bpost @ units post)) w2 w9"
    by (rule grows_trans)
  then obtain later where
    w9: "w_trace w9 = w_trace w2 @ later"
    and l: "\<forall>ev\<in>set later. any_unit_ev ?G (map (Pair S) bpost @ units post) ev"
    by (auto simp: grows_def)
  have "w_trace w' = w_trace w @ EvInitDb # saves @ EvLoadSeen S B # EvProbe S B # rest @ later"
    using w' w9 w2 w1 by simp
  with sv r1 r2 l show ?thesis by blast
qed


lemma page_fetches: "\<forall>ev\<in>set xs. page_ev G s b ev \<Longrightarrow> ev \<in> set xs \<Longrightarrow> is_fetch ev
   \<Longrightarrow> fetch_unit ev = (s, b)"
  by (auto dest: page_ev_fetch)

lemma takeWhile_upto: "\<forall>x\<in>set xs. x \<noteq> a \<Longrightarrow> takeWhile (\<lambda>u. u \<noteq> a) (xs @ a # ys) = xs"
  by (induction xs) auto

text \<open>
  Claim C1, as the code has it. A sheet is crawled from a decoded checkpoint that names
  the sheet, subcategory \<open>S\<close>, brand \<open>B\<close> and start \<open>N\<close>, the unit \<open>(S, B)\<close> being in the work
  list. The call returns. Then no request goes
  to the provider for a unit before \<open>(S, B)\<close> in the order of the loops. The first request
  of the run is the first request of \<open>(S, B)\<close>, made with \<^verbatim>\<open>start=0\<close> to estimate the total:
  it is made for the resumed unit like for any other. If \<open>N\<close> does not exceed the ceiling
  this estimate gives, the request after it is the page of \<open>(S, B)\<close> at offset exactly
  \<open>N\<close>.
\<close>

theorem resume_skips_earlier_units_and_pages_from_offset:
  assumes load: "load_subcategories_from_excel (read_sheet env sheet_name) = Inr (C, SUBS, RM)"
    and creds: "\<not> unset (OXYLABS_USERNAME env)" "\<not> unset (OXYLABS_PASSWORD env)"
    and initdb: "db_faults env (n_db w) \<noteq> StmtFail"
    and dec: "as_checkpoint rj = Some rs"
    and sheet: "ck_sheet rs = sheet_name"
    and sub: "ck_subcategory rs = Some S" and br: "ck_brand rs = Some B"
    and unit: "(S, B) \<in> set (units SUBS)"
  shows "\<exists>r w'. crawl env sheet_name rj w = Some (r, w')
       \<and> (\<forall>u\<in>set (units_before (S, B) (units SUBS)).
            \<forall>ev\<in>set (new_events w w'). is_fetch ev \<longrightarrow> fetch_unit ev \<noteq> u)
       \<and> take 1 (filter is_fetch (new_events w w')) = [EvProbe S B]
       \<and> (ck_start rs \<le> probe_max_start (provider env (n_fetch w) (build_query S B) 1) \<longrightarrow>
            take 2 (filter is_fetch (new_events w w'))
              = [EvProbe S B, EvPage S B (ck_start rs) 1])"
proof -
  let ?G = "\<lambda>x::int. True"
  from crawl_defined[OF dec] obtain r w' where run: "crawl env sheet_name rj w = Some (r, w')"
    by blast
  from units_split[OF loader_wf[OF load] unit] obtain pre bpre bpost post where
    sp: "SUBS = pre @ (S, bpre @ B # bpost) # post"
    and k: "S \<notin> fst ` set pre" "B \<notin> set bpre" "map_of SUBS S = Some (bpre @ B # bpost)"
    and dj: "set (units pre @ map (Pair S) bpre)
               \<inter> set ((S, B) # map (Pair S) bpost @ units post) = {}"
    by blast
  from crawl_resume_shape[OF load creds initdb dec sub br sp k run] obtain saves rest later where
    tr: "w_trace w' = w_trace w @ EvInitDb # saves @ EvLoadSeen S B # EvProbe S B # rest @ later"
    and sv: "\<forall>ev\<in>set saves. is_save ev"
    and rs: "\<forall>ev\<in>set rest. page_ev ?G S B ev"
    and lt: "\<forall>ev\<in>set later. any_unit_ev ?G (map (Pair S) bpost @ units post) ev"
    and fp: "ck_start rs \<le> probe_max_start (provider env (n_fetch w) (build_query S B) 1) \<longrightarrow>
               (\<exists>c rest'. rest = EvSave c # EvPage S B (ck_start rs) 1 # rest')"
    by blast
  have new: "new_events w w' = EvInitDb # saves @ EvLoadSeen S B # EvProbe S B # rest @ later"
    using tr by (simp add: new_events_def)
  have ff: "filter is_fetch (new_events w w') = EvProbe S B # filter is_fetch (rest @ later)"
    using sv by (simp add: new saves_no_fetch)
  have pre_eq: "units_before (S, B) (units SUBS) = units pre @ map (Pair S) bpre"
  proof -
    have "units SUBS = (units pre @ map (Pair S) bpre) @ (S, B) # (map (Pair S) bpost @ units post)"
      by (simp add: sp)
    moreover have "\<forall>x\<in>set (units pre @ map (Pair S) bpre). x \<noteq> (S, B)"
      using dj by auto
    ultimately show ?thesis
      by (simp only: units_before_def takeWhile_upto)
  qed
  have tag: "fetch_unit ev \<in> set ((S, B) # map (Pair S) bpost @ units post)"
    if "ev \<in> set (new_events w w')" "is_fetch ev" for ev
  proof -
    from that(1) consider "ev = EvInitDb" | "ev \<in> set saves" | "ev = EvLoadSeen S B"
      | "ev = EvProbe S B" | "ev \<in> set rest" | "ev \<in> set later"
      by (auto simp: new)
    then show ?thesis
    proof cases
      case 1 with that(2) show ?thesis by simp
    next
      case 2 with sv that(2) show ?thesis by (cases ev) auto
    next
      case 3 with that(2) show ?thesis by simp
    next
      case 4 then show ?thesis by simp
    next
      case 5 with rs that(2) show ?thesis by (auto dest: page_ev_fetch)
    next
      case 6
      with lt have "any_unit_ev ?G (map (Pair S) bpost @ units post) ev" by blast
      from any_unit_ev_fetch[OF this that(2)] show ?thesis by simp
    qed
  qed
  have a: "\<forall>u\<in>set (units_before (S, B) (units SUBS)).
            \<forall>ev\<in>set (new_events w w'). is_fetch ev \<longrightarrow> fetch_unit ev \<noteq> u"
    unfolding pre_eq using tag dj by blast
  have b: "take 1 (filter is_fetch (new_events w w')) = [EvProbe S B]"
    by (simp add: ff)
  have c: "take 2 (filter is_fetch (new_events w w')) = [EvProbe S B, EvPage S B (ck_start rs) 1]"
    if "ck_start rs \<le> probe_max_start (provider env (n_fetch w) (build_query S B) 1)"
    using fp that by (auto simp: ff)
  from run a b c show ?thesis by blast
qed

theorem resume_skips_earlier_units_and_pages_from_offset_witness:
  "load_subcategories_from_excel (read_sheet env_shoes ''S1'')
       = Inr (fst shoes_worklist, fst (snd shoes_worklist), snd (snd shoes_worklist))
   \<and> \<not> unset (OXYLABS_USERNAME env_shoes) \<and> \<not> unset (OXYLABS_PASSWORD env_shoes)
   \<and> db_faults env_shoes (n_db world0) \<noteq> StmtFail
   \<and> as_checkpoint adidas_json = Some adidas_ck \<and> ck_sheet adidas_ck = ''S1''
   \<and> ck_subcategory adidas_ck = Some ''Shoes'' \<and> ck_brand adidas_ck = Some ''Adidas''
   \<and> (''Shoes'', ''Adidas'') \<in> set (units (fst (snd shoes_worklist)))
   \<and> (''Shoes'', ''Nike'')
        \<in> set (units_before (''Shoes'', ''Adidas'') (units (fst (snd shoes_worklist))))
   \<and> (''Shoes'', ''Nike'') \<notin> fetch_unit ` set (filter is_fetch (new_events world0 resumed_world))
   \<and> ck_start adidas_ck
        \<le> probe_max_start (provider env_shoes (n_fetch world0) (build_query ''Shoes'' ''Adidas'') 1)
   \<and> take 2 (filter is_fetch (new_events world0 resumed_world))
        = [EvProbe ''Shoes'' ''Adidas'', EvPage ''Shoes'' ''Adidas'' 20 1]"
proof -
  have l1: "load_subcategories_from_excel (read_sheet env_shoes ''S1'')
             = Inr (fst shoes_worklist, fst (snd shoes_worklist), snd (snd shoes_worklist))"
    by (simp add: shoes_worklist_def load_subcategories_from_excel_def read_sheet_def
          env_shoes_def shoes_book_def)
  have c1: "\<not> unset (OXYLABS_USERNAME env_shoes)" by code_simp
  have c2: "\<not> unset (OXYLABS_PASSWORD env_shoes)" by code_simp
  have c3: "db_faults env_shoes (n_db world0) \<noteq> StmtFail" by code_simp
  have c0: "as_checkpoint adidas_json = Some adidas_ck" by code_simp
  have c4: "ck_sheet adidas_ck = ''S1''" by code_simp
  have c5: "ck_subcategory adidas_ck = Some ''Shoes''" by code_simp
  have c6: "ck_brand adidas_ck = Some ''Adidas''" by code_simp
  have c7: "(''Shoes'', ''Adidas'') \<in> set (units (fst (snd shoes_worklist)))" by code_simp
  from resume_skips_earlier_units_and_pages_from_offset[OF l1 c1 c2 c3 c0 c4 c5 c6 c7]
  obtain r w' where run: "crawl env_shoes ''S1'' adidas_json world0 = Some (r, w')"
    and t1: "\<forall>u\<in>set (units_before (''Shoes'', ''Adidas'') (units (fst (snd shoes_worklist)))).
            \<forall>ev\<in>set (new_events world0 w'). is_fetch ev \<longrightarrow> fetch_unit ev \<noteq> u"
    and t3: "ck_start adidas_ck
               \<le> probe_max_start (provider env_shoes (n_fetch world0)
                     (build_query ''Shoes'' ''Adidas'') 1) \<longrightarrow>
            take 2 (filter is_fetch (new_events world0 w'))
              = [EvProbe ''Shoes'' ''Adidas'', EvPage ''Shoes'' ''Adidas'' (ck_start adidas_ck) 1]"
    by blast
  have w': "w' = resumed_world" using run by (simp add: resumed_world_def)
  have le: "ck_start adidas_ck
        \<le> probe_max_start (provider env_shoes (n_fetch world0) (build_query ''Shoes'' ''Adidas'') 1)"
    by code_simp
  have nike: "(''Shoes'', ''Nike'')
        \<in> set (units_before (''Shoes'', ''Adidas'') (units (fst (snd shoes_worklist))))"
    by code_simp
  have st: "ck_start adidas_ck = 20" by code_simp
  from t1 nike have "(''Shoes'', ''Nike'')
        \<notin> fetch_unit ` set (filter is_fetch (new_events world0 resumed_world))"
    unfolding w' by auto
  with t3 le l1 c0 c1 c2 c3 c4 c5 c6 c7 nike st show ?thesis unfolding w' by simp
qed

text \<open>
  Claim C1 as stated fails in the scenario of the two brands: the requests made for
  Adidas, the resumed unit, have the offsets 0 and 20 in this order, so the first one
  does not use the offset 20 of the checkpoint.
\<close>

theorem resumed_unit_first_request_at_zero:
  "map fetch_offset (unit_fetches ''Shoes'' ''Adidas'' resumed_trace) = [0, 20]
   \<and> ck_start adidas_ck = 20"
  by code_simp

section \<open>The resumed unit\<close>

lemma n_fetch_load_seen [simp]: "n_fetch (emit (EvLoadSeen s b) w) = n_fetch w"
  by (simp add: n_fetch_def)

text \<open>
  Claim C2, as the code has it. For the unit that matches the checkpoint, the first
  request (\<^verbatim>\<open>start=0\<close>, for the estimate) is made all the same: it is the second call of the
  unit, after the stored URLs are loaded. The offset and the page number of the checkpoint
  are not reset: if the offset does not exceed the ceiling, the next two events are the
  checkpoint saved with that offset and page number and the page requested at that offset;
  otherwise no page is requested and the only event left is the final save, with that
  offset and page number. The flag that makes the loops skip is cleared.
\<close>

theorem resumed_unit_probes_and_keeps_offset:
  assumes sk: "skip_until_resume cs"
    and sub: "ck_subcategory rs = Some S" and br: "ck_brand rs = Some B"
    and cu: "crawl_unit env C SUBS RM (Some rs) S B (cs, w) = (cs', w')"
  shows "take 2 (new_events w w') = [EvLoadSeen S B, EvProbe S B]
       \<and> (ck_start rs \<le> probe_max_start (provider env (n_fetch w) (build_query S B) 1) \<longrightarrow>
            take 2 (drop 2 (new_events w w'))
              = [EvSave ((ck cs)\<lparr>ck_subcategory := Some S, ck_brand := Some B,
                                 ck_start := ck_start rs, ck_page_num := ck_page_num rs,
                                 ck_timestamp := Some (utcnow env (length (w_trace w) + 2))\<rparr>),
                 EvPage S B (ck_start rs) 1])
       \<and> (\<not> ck_start rs \<le> probe_max_start (provider env (n_fetch w) (build_query S B) 1) \<longrightarrow>
            drop 2 (new_events w w')
              = [EvSave ((ck cs)\<lparr>ck_subcategory := Some S, ck_brand := Some B,
                                 ck_start := ck_start rs, ck_page_num := ck_page_num rs\<rparr>)])
       \<and> \<not> skip_until_resume cs'"
proof -
  have m: "probe_max_start (oxylabs_search env (emit (EvLoadSeen S B) w)
                   (build_query S B) 0 RESULTS_PER_PAGE)
           = probe_max_start (provider env (n_fetch w) (build_query S B) 1)"
    by (simp add: oxylabs_search_def RESULTS_PER_PAGE_def)
  from crawl_unit_resume[OF sk refl sub br cu, unfolded m] show ?thesis
    by (auto simp: new_events_def)
qed

theorem resumed_unit_probes_and_keeps_offset_witness:
  "skip_until_resume cs_resuming
   \<and> ck_subcategory adidas_ck = Some ''Shoes'' \<and> ck_brand adidas_ck = Some ''Adidas''
   \<and> ck_start adidas_ck
        \<le> probe_max_start (provider env_shoes (n_fetch world0) (build_query ''Shoes'' ''Adidas'') 1)
   \<and> take 4 (new_events world0 (snd adidas_unit))
        = [EvLoadSeen ''Shoes'' ''Adidas'', EvProbe ''Shoes'' ''Adidas'',
           EvSave ((ck cs_resuming)\<lparr>ck_subcategory := Some ''Shoes'', ck_brand := Some ''Adidas'',
                      ck_start := 20, ck_page_num := 2,
                      ck_timestamp := Some (utcnow env_shoes (length (w_trace world0) + 2))\<rparr>),
           EvPage ''Shoes'' ''Adidas'' 20 1]
   \<and> \<not> skip_until_resume (fst adidas_unit)"
proof -
  have c1: "skip_until_resume cs_resuming" by code_simp
  have c2: "ck_subcategory adidas_ck = Some ''Shoes''" by code_simp
  have c3: "ck_brand adidas_ck = Some ''Adidas''" by code_simp
  have cu: "crawl_unit env_shoes ''Fashion'' [(''Shoes'', [''Nike'', ''Adidas''])] no_rows
              (Some adidas_ck) ''Shoes'' ''Adidas'' (cs_resuming, world0)
            = (fst adidas_unit, snd adidas_unit)"
    by (simp add: adidas_unit_def)
  have le: "ck_start adidas_ck
        \<le> probe_max_start (provider env_shoes (n_fetch world0) (build_query ''Shoes'' ''Adidas'') 1)"
    by code_simp
  have st: "ck_start adidas_ck = 20" "ck_page_num adidas_ck = 2"
    by code_simp+
  note t = resumed_unit_probes_and_keeps_offset[OF c1 c2 c3 cu]
  from t le have a: "take 2 (new_events world0 (snd adidas_unit))
        = [EvLoadSeen ''Shoes'' ''Adidas'', EvProbe ''Shoes'' ''Adidas'']"
    and b: "take 2 (drop 2 (new_events world0 (snd adidas_unit)))
        = [EvSave ((ck cs_resuming)\<lparr>ck_subcategory := Some ''Shoes'', ck_brand := Some ''Adidas'',
                      ck_start := 20, ck_page_num := 2,
                      ck_timestamp := Some (utcnow env_shoes (length (w_trace world0) + 2))\<rparr>),
           EvPage ''Shoes'' ''Adidas'' 20 1]"
    and c: "\<not> skip_until_resume (fst adidas_unit)"
    by (simp_all add: st)
  have "take 4 (new_events world0 (snd adidas_unit))
          = take 2 (new_events world0 (snd adidas_unit))
            @ take 2 (drop 2 (new_events world0 (snd adidas_unit)))"
    using take_add[of 2 2 "new_events world0 (snd adidas_unit)"] by simp
  with a b c c1 c2 c3 le show ?thesis by simp
qed

text \<open>
  Claim C2 as stated fails in the scenario of the two brands: the first request of the
  resumed unit is in the trace of the resumed run.
\<close>

theorem resumed_unit_probe_not_skipped:
  "EvProbe ''Shoes'' ''Adidas'' \<in> set resumed_trace"
  by code_simp


section \<open>What the checkpoint holds\<close>

lemma aligned_step: "aligned x \<Longrightarrow> aligned (x + 10)"
  by (simp add: aligned_def)

lemma aligned_0 [simp]: "aligned 0"
  by (simp add: aligned_def)

lemma unit_ev_save_ok: "unit_ev aligned s b ev \<Longrightarrow> save_ok ev"
  by (cases ev) (auto simp: unit_ev_def aligned_def)

lemma any_unit_ev_save_ok: "any_unit_ev aligned us ev \<Longrightarrow> save_ok ev"
  by (auto simp: any_unit_ev_def dest: unit_ev_save_ok)

lemma crawl_units_saves_aligned:
  assumes rs: "\<And>rs. resume_state = Some rs \<Longrightarrow> aligned (ck_start rs)"
    and run: "crawl_units env sheet_name C SUBS RM resume_state w0 = (r, w')"
  shows "grows save_ok w0 w'"
proof -
  define cs0 where "cs0 = \<lparr>ck = initial_ck sheet_name C resume_state,
                            total_urls_found = 0, log_stats = [],
                            skip_until_resume = (resume_state \<noteq> None)\<rparr>"
  obtain cs9 w9 where cs: "crawl_subs env C SUBS RM resume_state SUBS (cs0, w0) = (cs9, w9)"
    by (cases "crawl_subs env C SUBS RM resume_state SUBS (cs0, w0)") auto
  have a0: "aligned (ck_start (ck cs0))"
    using rs by (auto simp: cs0_def initial_ck_def Let_def split: option.splits)
  from crawl_subs_grows[where G=aligned, OF aligned_step rs aligned_0 a0 cs]
  have "grows (any_unit_ev aligned (units SUBS)) w0 w9" by simp
  then have "grows save_ok w0 w9"
    by (rule grows_mono) (rule any_unit_ev_save_ok)
  moreover from run cs have "w_trace w' = w_trace w9"
    by (auto simp: crawl_units_def Let_def cs0_def say_def)
  ultimately show ?thesis by (simp add: grows_def)
qed

lemma crawl_saves_aligned:
  assumes rs: "\<And>rs. as_checkpoint rj = Some rs \<Longrightarrow> aligned (ck_start rs)"
    and run: "crawl env sheet_name rj w = Some (r, w')"
  shows "grows save_ok w w'"
proof (cases "load_subcategories_from_excel (read_sheet env sheet_name)")
  case (Inl e)
  with run show ?thesis by (auto simp: crawl_def)
next
  case (Inr wl)
  obtain C SUBS RM where wl: "wl = (C, SUBS, RM)" by (cases wl) auto
  show ?thesis
  proof (cases "unset (OXYLABS_USERNAME env) \<or> unset (OXYLABS_PASSWORD env)")
    case True
    with run Inr wl show ?thesis by (auto simp: crawl_def)
  next
    case False
    have e: "grows save_ok w (emit EvInitDb w)" by (simp add: grows_emit)
    show ?thesis
    proof (cases "init_db (db_faults env (n_db w))")
      case (Inl e)
      with run Inr wl False show ?thesis
        by (auto simp: crawl_def intro!: grows_emit)
    next
      case u: (Inr u)
      have units: "grows save_ok w w'"
        if "crawl_units env sheet_name C SUBS RM rso (emit EvInitDb w) = (r, w')"
          and "\<And>rs. rso = Some rs \<Longrightarrow> aligned (ck_start rs)" for rso
        using crawl_units_saves_aligned[OF that(2) that(1)] e by (blast intro: grows_trans)
      show ?thesis
      proof (cases rj)
        case JNull
        with run Inr wl False u have
          "crawl_units env sheet_name C SUBS RM None (emit EvInitDb w) = (r, w')"
          by (simp add: crawl_def)
        then show ?thesis by (rule units) simp
      next
        case (JObj kvs)
        with run Inr wl False u obtain rs0 where
          d: "as_checkpoint rj = Some rs0"
          and c: "crawl_units env sheet_name C SUBS RM (Some rs0) (emit EvInitDb w) = (r, w')"
          by (auto simp: crawl_def split: option.splits)
        from c show ?thesis by (rule units) (use rs d in simp)
      next
        case (JBool x)
        with run Inr wl False u e show ?thesis
          by (auto simp: crawl_def split: if_splits)
      next
        case (JInt x)
        with run Inr wl False u e show ?thesis
          by (auto simp: crawl_def split: if_splits)
      next
        case (JFloat x y)
        with run Inr wl False u e show ?thesis
          by (auto simp: crawl_def split: if_splits)
      next
        case (JStr x)
        with run Inr wl False u e show ?thesis
          by (auto simp: crawl_def split: if_splits)
      next
        case (JArr x)
        with run Inr wl False u e show ?thesis
          by (auto simp: crawl_def split: if_splits)
      qed
    qed
  qed
qed

lemma main_loop_saves_aligned:
  "(\<And>rs. as_checkpoint resume = Some rs \<Longrightarrow> aligned (ck_start rs))
   \<Longrightarrow> main_loop env sheets resume w = Some w' \<Longrightarrow> grows save_ok w w'"
proof (induction sheets arbitrary: resume w)
  case Nil
  then show ?case by simp
next
  case (Cons sheet sheets)
  have nul: "as_checkpoint JNull = None" by (simp add: as_checkpoint_def)
  have fresh: "grows save_ok w w'"
    if c: "crawl env sheet rj w = Some (r, w1)"
      and al: "\<And>rs. as_checkpoint rj = Some rs \<Longrightarrow> aligned (ck_start rs)"
      and nx: "r = None \<Longrightarrow> main_loop env sheets nxt w1 = Some w'"
      and st: "r \<noteq> None \<Longrightarrow> w' = say (LogSheetStopped sheet) w1"
      and an: "\<And>rs. as_checkpoint nxt = Some rs \<Longrightarrow> aligned (ck_start rs)"
    for rj r w1 nxt
  proof -
    from crawl_saves_aligned[OF al c] have g: "grows save_ok w w1" by simp
    show ?thesis
    proof (cases r)
      case None
      from Cons.IH[OF an nx[OF None]] g show ?thesis by (blast intro: grows_trans)
    next
      case (Some e)
      with st g show ?thesis by simp
    qed
  qed
  show ?case
  proof (cases "truthy resume")
    case False
    from Cons.prems(2) False obtain r w1 where
      c: "crawl env sheet JNull w = Some (r, w1)"
      by (cases "crawl env sheet JNull w") auto
    show ?thesis
    proof (rule fresh[OF c, where nxt=resume])
      show "\<And>rs. as_checkpoint JNull = Some rs \<Longrightarrow> aligned (ck_start rs)" by (simp add: nul)
      show "r = None \<Longrightarrow> main_loop env sheets resume w1 = Some w'"
        using Cons.prems(2) False c by simp
      show "r \<noteq> None \<Longrightarrow> w' = say (LogSheetStopped sheet) w1"
        using Cons.prems(2) False c by auto
      show "\<And>rs. as_checkpoint resume = Some rs \<Longrightarrow> aligned (ck_start rs)"
        using Cons.prems(1) .
    qed
  next
    case True
    show ?thesis
    proof (cases "py_get resume ''sheet'' JNull")
      case (Inl e)
      with True Cons.prems(2) show ?thesis by auto
    next
      case (Inr sh)
      show ?thesis
      proof (cases "sh = JStr sheet")
        case False
        with True Inr Cons.prems(2)
        have "main_loop env sheets resume (say (LogSkipSheet sheet) w) = Some w'" by simp
        from Cons.IH[OF Cons.prems(1) this] show ?thesis by (simp add: grows_def say_def)
      next
        case eq: True
        from Cons.prems(2) True Inr eq obtain r w1 where
          c: "crawl env sheet resume w = Some (r, w1)"
          by (cases "crawl env sheet resume w") auto
        show ?thesis
        proof (rule fresh[OF c, where nxt=JNull])
          show "\<And>rs. as_checkpoint resume = Some rs \<Longrightarrow> aligned (ck_start rs)"
            using Cons.prems(1) .
          show "r = None \<Longrightarrow> main_loop env sheets JNull w1 = Some w'"
            using Cons.prems(2) True Inr eq c by simp
          show "r \<noteq> None \<Longrightarrow> w' = say (LogSheetStopped sheet) w1"
            using Cons.prems(2) True Inr eq c by auto
          show "\<And>rs. as_checkpoint JNull = Some rs \<Longrightarrow> aligned (ck_start rs)"
            by (simp add: nul)
        qed
      qed
    qed
  qed
qed

lemma main_saves_aligned:
  assumes al: "\<And>rj rs. fst (load_checkpoint (ckpt_stat env) (ckpt_readable env) (json_loads env)
                            (w_files w)) = Inr rj
              \<Longrightarrow> as_checkpoint rj = Some rs \<Longrightarrow> aligned (ck_start rs)"
    and run: "main env w = Some (r, w')"
  shows "grows save_ok w w'"
proof -
  obtain res msgs where
    lc: "load_checkpoint (ckpt_stat env) (ckpt_readable env) (json_loads env) (w_files w) = (res, msgs)"
    by (cases "load_checkpoint (ckpt_stat env) (ckpt_readable env) (json_loads env) (w_files w)") auto
  have g: "grows save_ok w (w\<lparr>w_log := l\<rparr>)" for l by (simp add: grows_def)
  show ?thesis
  proof (cases res)
    case (Inl e)
    with lc g run show ?thesis by (auto simp: main_def Let_def)
  next
    case (Inr resume)
    show ?thesis
    proof (cases "workbook env")
      case None
      with lc Inr run g[of "w_log w @ msgs"] show ?thesis
        by (auto simp: main_def Let_def)
    next
      case (Some sheets)
      with lc Inr run have
        ml: "main_loop env (map fst sheets) resume (w\<lparr>w_log := w_log w @ msgs\<rparr>) = Some w'"
        by (auto simp: main_def Let_def)
      have "grows save_ok (w\<lparr>w_log := w_log w @ msgs\<rparr>) w'"
        using al lc Inr by (intro main_loop_saves_aligned[OF _ ml]) auto
      with g[of "w_log w @ msgs"] show ?thesis by (blast intro: grows_trans)
    qed
  qed
qed

lemma new_events_trans:
  "w_trace w1 = w_trace w @ xs \<Longrightarrow> w_trace w2 = w_trace w1 @ ys
   \<Longrightarrow> new_events w w2 = xs @ ys"
  by (simp add: new_events_def)

lemma page_round_fetches:
  assumes ps: "page_step env C s b q (cs, st, w) = (v, (cs', st', w'))"
  shows "\<exists>evs. w_trace w' = w_trace w @ evs \<and> filter is_fetch evs \<noteq> []
            \<and> (\<forall>ev\<in>set (filter is_fetch evs). is_page ev \<and> fetch_offset ev = start st)"
    and "ck_start (ck cs') = start st"
proof -
  from page_step_first[where G="\<lambda>x. x = start st", OF ps] obtain rest where
    w': "w_trace w' = w_trace w @ EvSave (ck cs') # EvPage s b (start st) 1 # rest"
    and r: "\<forall>ev\<in>set rest. page_ev (\<lambda>x. x = start st) s b ev"
    and c: "ck_start (ck cs') = start st" by auto
  show "ck_start (ck cs') = start st" by (rule c)
  have "is_page ev \<and> fetch_offset ev = start st" if "ev \<in> set rest" "is_fetch ev" for ev
    using r that by (cases ev) auto
  with w' show "\<exists>evs. w_trace w' = w_trace w @ evs \<and> filter is_fetch evs \<noteq> []
            \<and> (\<forall>ev\<in>set (filter is_fetch evs). is_page ev \<and> fetch_offset ev = start st)"
    by (intro exI[of _ "EvSave (ck cs') # EvPage s b (start st) 1 # rest"]) auto
qed

lemma paginate_last_fetch:
  "start st \<le> max_start st
   \<Longrightarrow> paginate env C s b q (cs, st, w) = (r, (cs', st', w'))
   \<Longrightarrow> \<exists>evs. w_trace w' = w_trace w @ evs \<and> filter is_fetch evs \<noteq> []
          \<and> is_page (last (filter is_fetch evs))
          \<and> fetch_offset (last (filter is_fetch evs)) = ck_start (ck cs')"
proof (induction env C s b q "(cs, st, w)" arbitrary: cs st w rule: paginate.induct)
  case (1 env C s b q)
  obtain v cs1 st1 w1 where ps: "page_step env C s b q (cs, st, w) = (v, (cs1, st1, w1))"
    by (cases "page_step env C s b q (cs, st, w)") auto
  from page_round_fetches[OF ps] obtain evs where
    w1: "w_trace w1 = w_trace w @ evs" and ne: "filter is_fetch evs \<noteq> []"
    and off: "\<forall>ev\<in>set (filter is_fetch evs). is_page ev \<and> fetch_offset ev = start st"
    and c1: "ck_start (ck cs1) = start st" by blast
  have here: "is_page (last (filter is_fetch evs))
      \<and> fetch_offset (last (filter is_fetch evs)) = start st"
    using ne off last_in_set by blast
  show ?case
  proof (cases "v = Continue \<and> start st1 \<le> max_start st1")
    case True
    with "1.prems" ps have p: "paginate env C s b q (cs1, st1, w1) = (r, (cs', st', w'))"
      by (simp add: paginate.simps)
    from "1.hyps"[of v cs1 st1 w1] "1.prems"(1) ps True p obtain evs2 where
      "w_trace w' = w_trace w1 @ evs2" "filter is_fetch evs2 \<noteq> []"
      "is_page (last (filter is_fetch evs2))"
      "fetch_offset (last (filter is_fetch evs2)) = ck_start (ck cs')" by auto
    with w1 show ?thesis
      by (intro exI[of _ "evs @ evs2"]) simp
  next
    case False
    have "(cs', st', w') = (cs1, st1, w1)"
    proof (cases v)
      case Continue
      with False have "\<not> start st1 \<le> max_start st1" by simp
      with Continue "1.prems" ps show ?thesis
        by (simp add: paginate.simps[of env C s b q "(cs, st, w)"]
              paginate.simps[of env C s b q "(cs1, st1, w1)"])
    next
      case Break
      with "1.prems" ps show ?thesis by (simp add: paginate.simps)
    next
      case (Raise e)
      with "1.prems" ps show ?thesis by (simp add: paginate.simps)
    qed
    with w1 ne here c1 show ?thesis by auto
  qed
qed

lemma fresh_unit_final_save:
  assumes fresh: "\<not> skip_until_resume cs"
    and m: "0 \<le> probe_max_start (provider env (n_fetch w) (build_query s b) 1)"
    and cu: "crawl_unit env C SUBS RM resume_state s b (cs, w) = (cs', w')"
  shows "last (new_events w w') = EvSave (ck cs')
       \<and> is_page (last (filter is_fetch (new_events w w')))
       \<and> fetch_offset (last (filter is_fetch (new_events w w'))) = ck_start (ck cs')"
proof -
  let ?st0 = "\<lparr>start = 0, page_num = 0, brand_urls = 0, consecutive_empty = 0,
                    max_start = DEFAULT_MAX_START, seen_urls = {}, found_this_page = 0\<rparr>"
  obtain r cs1 st1 w1 where
    ub: "unit_body env C SUBS resume_state s b (cs, ?st0, w) = (r, (cs1, st1, w1))"
    by (cases "unit_body env C SUBS resume_state s b (cs, ?st0, w)") auto
  from cu ub have cs': "ck cs' = ck cs1"
    and w': "w_trace w' = w_trace w1 @ [EvSave (ck cs1)]"
    by (auto simp: crawl_unit_def Let_def split: option.splits)
  from ub fresh obtain cs2 sn w3 where
    p: "paginate env C s b (build_query s b)
          (cs2, ?st0\<lparr>seen_urls := sn,
                max_start := probe_max_start (provider env (n_fetch w) (build_query s b) 1)\<rparr>, w3)
          = (r, (cs1, st1, w1))"
    and w3: "w_trace w3 = w_trace w @ [EvLoadSeen s b, EvProbe s b]"
    by (auto simp: unit_body_def Let_def oxylabs_search_def RESULTS_PER_PAGE_def
             split: sum.splits)
  from paginate_last_fetch[OF _ p] m obtain evs where
    w1: "w_trace w1 = w_trace w3 @ evs" and ne: "filter is_fetch evs \<noteq> []"
    and off: "is_page (last (filter is_fetch evs))"
       "fetch_offset (last (filter is_fetch evs)) = ck_start (ck cs1)" by auto
  have "new_events w w' = [EvLoadSeen s b, EvProbe s b] @ evs @ [EvSave (ck cs1)]"
    using w' w1 w3 by (simp add: new_events_def)
  with ne off cs' show ?thesis by simp
qed


lemma grows_save_ok_D:
  "grows save_ok w w' \<Longrightarrow> EvSave c \<in> set (new_events w w')
   \<Longrightarrow> 0 \<le> ck_start c \<and> ck_start c mod 10 = 0"
proof -
  assume "grows save_ok w w'" and m: "EvSave c \<in> set (new_events w w')"
  then have "\<forall>ev\<in>set (new_events w w'). save_ok ev"
    by (auto simp: grows_def new_events_def)
  with m have "save_ok (EvSave c)" by blast
  then show ?thesis by simp
qed

text \<open>
  Claim C7, as the code has it. If the checkpoint that a run of the script loads, when
  it is a dict of the checkpoint's shape, has a start that is a non-negative multiple of
  10, then so has every checkpoint the run saves. The checkpoint saved at the top of a pagination round carries the offset
  of the page requested right after it: the next offset to fetch. The checkpoint saved
  when a unit completes is the record as the last round left it: for a unit processed
  from its beginning, its start is the offset of the last page requested, not the one
  after it.
\<close>

theorem checkpoint_start_aligned_and_saved_before_fetch:
  assumes resumed: "\<forall>rj rs. fst (load_checkpoint (ckpt_stat env) (ckpt_readable env)
                                   (json_loads env) (w_files w)) = Inr rj
                               \<and> as_checkpoint rj = Some rs
              \<longrightarrow> 0 \<le> ck_start rs \<and> ck_start rs mod 10 = 0"
  shows "(\<forall>r w' c. main env w = Some (r, w') \<and> EvSave c \<in> set (new_events w w')
            \<longrightarrow> 0 \<le> ck_start c \<and> ck_start c mod 10 = 0)
       \<and> (page_step env C s b q (cs, st, w0) = (v, (cs', st', w0'))
            \<longrightarrow> take 2 (new_events w0 w0') = [EvSave (ck cs'), EvPage s b (ck_start (ck cs')) 1]
                \<and> ck_start (ck cs') = start st)
       \<and> (\<not> skip_until_resume cs1
           \<and> 0 \<le> probe_max_start (provider env (n_fetch w1) (build_query s1 b1) 1)
           \<and> crawl_unit env C1 SUBS RM resume_state s1 b1 (cs1, w1) = (cs1', w1')
            \<longrightarrow> last (new_events w1 w1') = EvSave (ck cs1')
                \<and> is_page (last (filter is_fetch (new_events w1 w1')))
                \<and> fetch_offset (last (filter is_fetch (new_events w1 w1'))) = ck_start (ck cs1'))"
proof -
  have a: "grows save_ok w w'" if "main env w = Some (r, w')" for r w'
    using resumed by (intro main_saves_aligned[OF _ that]) (auto simp: aligned_def)
  have b: "take 2 (new_events w0 w0') = [EvSave (ck cs'), EvPage s b (ck_start (ck cs')) 1]
                \<and> ck_start (ck cs') = start st"
    if "page_step env C s b q (cs, st, w0) = (v, (cs', st', w0'))"
    using page_step_first[where G="\<lambda>x. True", OF that] by (auto simp: new_events_def)
  from a b fresh_unit_final_save[of cs1 env w1 s1 b1 C1 SUBS RM resume_state cs1' w1']
  show ?thesis by (auto dest: grows_save_ok_D)
qed

theorem checkpoint_start_aligned_and_saved_before_fetch_witness:
  "fst (load_checkpoint (ckpt_stat env_resume) (ckpt_readable env_resume) (json_loads env_resume)
          (w_files world_ck)) = Inr adidas_json
   \<and> as_checkpoint adidas_json = Some adidas_ck
   \<and> 0 \<le> ck_start adidas_ck \<and> ck_start adidas_ck mod 10 = 0
   \<and> main env_resume world_ck = Some (None, main_world)
   \<and> EvSave final_ck \<in> set (new_events world_ck main_world)
   \<and> 0 \<le> ck_start final_ck \<and> ck_start final_ck mod 10 = 0
   \<and> take 2 (new_events world0 (snd (snd (snd first_round))))
        = [EvSave (ck (fst (snd first_round))),
           EvPage ''Shoes'' ''Nike'' (ck_start (ck (fst (snd first_round)))) 1]
   \<and> ck_start (ck (fst (snd first_round))) = start st_fresh
   \<and> \<not> skip_until_resume cs_fresh
   \<and> 0 \<le> probe_max_start (provider env_resume (n_fetch world0) (build_query ''Shoes'' ''Nike'') 1)
   \<and> last (new_events world0 (snd nike_unit)) = EvSave (ck (fst nike_unit))
   \<and> is_page (last (filter is_fetch (new_events world0 (snd nike_unit))))
   \<and> fetch_offset (last (filter is_fetch (new_events world0 (snd nike_unit))))
        = ck_start (ck (fst nike_unit))"
proof -
  have h1: "fst (load_checkpoint (ckpt_stat env_resume) (ckpt_readable env_resume)
               (json_loads env_resume) (w_files world_ck)) = Inr adidas_json" by code_simp
  have h0: "as_checkpoint adidas_json = Some adidas_ck" by code_simp
  have h2: "0 \<le> ck_start adidas_ck \<and> ck_start adidas_ck mod 10 = 0" by code_simp
  have md: "modelled adidas_json" by code_simp
  have fs: "fst (the (main env_resume world_ck)) = None" by code_simp
  from main_modelled[of env_resume world_ck] h1 md obtain r w' where
    "main env_resume world_ck = Some (r, w')" by auto
  with fs have mn: "main env_resume world_ck = Some (None, main_world)"
    by (simp add: main_world_def)
  have h3: "EvSave final_ck \<in> set (new_events world_ck main_world)" by code_simp
  have h4: "page_step env_resume ''Fashion'' ''Shoes'' ''Nike'' (build_query ''Shoes'' ''Nike'')
              (cs_fresh, st_fresh, world0)
            = (fst first_round, fst (snd first_round), fst (snd (snd first_round)),
               snd (snd (snd first_round)))"
    by (simp add: first_round_def)
  have h5: "\<not> skip_until_resume cs_fresh" by code_simp
  have h6: "0 \<le> probe_max_start (provider env_resume (n_fetch world0) (build_query ''Shoes'' ''Nike'') 1)"
    by code_simp
  have h7: "crawl_unit env_resume ''Fashion'' [(''Shoes'', [''Nike'', ''Adidas''])] no_rows
                   None ''Shoes'' ''Nike'' (cs_fresh, world0) = (fst nike_unit, snd nike_unit)"
    by (simp add: nike_unit_def)
  have pre: "\<forall>rj rs. fst (load_checkpoint (ckpt_stat env_resume) (ckpt_readable env_resume)
                      (json_loads env_resume) (w_files world_ck)) = Inr rj
                  \<and> as_checkpoint rj = Some rs
              \<longrightarrow> 0 \<le> ck_start rs \<and> ck_start rs mod 10 = 0"
    using h1 h0 h2 by auto
  note t = checkpoint_start_aligned_and_saved_before_fetch[where env=env_resume and w=world_ck, OF pre,
      where C="''Fashion''" and s="''Shoes''" and b="''Nike''" and q="build_query ''Shoes'' ''Nike''"
        and cs=cs_fresh and st=st_fresh and ?w0.0=world0 and v="fst first_round"
        and cs'="fst (snd first_round)" and st'="fst (snd (snd first_round))"
        and ?w0'="snd (snd (snd first_round))"
        and ?cs1.0=cs_fresh and ?w1.0=world0 and ?s1.0="''Shoes''" and ?b1.0="''Nike''"
        and ?C1.0="''Fashion''" and SUBS="[(''Shoes'', [''Nike'', ''Adidas''])]" and RM=no_rows
        and resume_state=None and ?cs1'="fst nike_unit" and ?w1'="snd nike_unit"]
  from t mn h3 have "0 \<le> ck_start final_ck \<and> ck_start final_ck mod 10 = 0" by blast
  with t mn h3 h4 h5 h6 h7 h1 h0 h2 show ?thesis by blast
qed

text \<open>
  Claim C7 as stated fails for the checkpoint written at unit completion. Nike is crawled
  from its beginning with an estimate of 25 results: pages are requested at 0, 10 and 20,
  the rounds save the starts 0, 10 and 20, and the save at completion (the last event)
  has start 20 again, the offset of the last completed fetch.
\<close>

theorem final_checkpoint_repeats_last_offset:
  "saved_starts (w_trace (snd nike_unit)) = [0, 10, 20, 20]
   \<and> map fetch_offset (filter is_page (w_trace (snd nike_unit))) = [0, 10, 20]
   \<and> is_save (last (w_trace (snd nike_unit)))"
  by code_simp



section \<open>Exhausted retries and the empty streak\<close>

text \<open>
  Claim C3 at a unit whose provider fails every page request. The estimate gives the
  ceiling 20. The five attempts at offset 0 fail, the five attempts at offset 10 fail: two
  consecutive page attempts have stored nothing, and \<^verbatim>\<open>consecutive_empty\<close> is 2. The page at
  offset 20 is requested all the same, five times.
\<close>

theorem exhausted_pages_do_not_stop_pagination:
  "map fetch_offset (filter is_page (w_trace (snd flaky_unit)))
     = [0, 0, 0, 0, 0, 10, 10, 10, 10, 10, 20, 20, 20, 20, 20]
   \<and> w_log (snd flaky_unit)
     = [LogPageSkipped ''Shoes'' ''Nike'' 0, LogPageSkipped ''Shoes'' ''Nike'' 10,
        LogPageSkipped ''Shoes'' ''Nike'' 20]
   \<and> w_db (snd flaky_unit) = []
   \<and> MAX_CONSECUTIVE_EMPTY = 2"
  by code_simp


section \<open>Failures of the checkpoint store\<close>

lemma same_but_io_fields:
  assumes "same_but_io env env'"
  shows "provider env' = provider env" "db_faults env' = db_faults env" "utcnow env' = utcnow env"
    "OXYLABS_USERNAME env' = OXYLABS_USERNAME env" "OXYLABS_PASSWORD env' = OXYLABS_PASSWORD env"
    "workbook env' = workbook env" "json_loads env' = json_loads env"
    "ckpt_readable env' = ckpt_readable env" "ckpt_stat env' = ckpt_stat env"
proof -
  from assms have e: "env' = env\<lparr>io_faults := io_faults env'\<rparr>" by (simp add: same_but_io_def)
  show "provider env' = provider env" by (subst e) simp
  show "db_faults env' = db_faults env" by (subst e) simp
  show "utcnow env' = utcnow env" by (subst e) simp
  show "OXYLABS_USERNAME env' = OXYLABS_USERNAME env" by (subst e) simp
  show "OXYLABS_PASSWORD env' = OXYLABS_PASSWORD env" by (subst e) simp
  show "workbook env' = workbook env" by (subst e) simp
  show "json_loads env' = json_loads env" by (subst e) simp
  show "ckpt_readable env' = ckpt_readable env" by (subst e) simp
  show "ckpt_stat env' = ckpt_stat env" by (subst e) simp
qed

lemma sim_counts: "sim w w' \<Longrightarrow> n_fetch w = n_fetch w' \<and> n_db w = n_db w' \<and> n_save w = n_save w'"
  by (simp add: sim_def n_fetch_def n_db_def n_save_def)

lemma sim_emit: "sim w w' \<Longrightarrow> sim (emit ev w) (emit ev w')"
  by (simp add: sim_def emit_def)

lemma sim_say: "sim w w' \<Longrightarrow> sim (say m w) w'" "sim w w' \<Longrightarrow> sim w (say m w')"
  by (simp_all add: sim_def say_def)

lemma sim_save: "sim w w' \<Longrightarrow> sim (save_checkpoint env c w) (save_checkpoint env' c w')"
  by (simp add: sim_def save_checkpoint_def split: prod.splits)

lemma sim_fetch_retry:
  assumes e: "same_but_io env env'"
  shows "sim w w' \<Longrightarrow> fst (fetch_retry env s b q st atts w) = fst (fetch_retry env' s b q st atts w')
     \<and> sim (snd (fetch_retry env s b q st atts w)) (snd (fetch_retry env' s b q st atts w'))"
proof (induction atts arbitrary: w w')
  case Nil
  then show ?case by simp
next
  case (Cons a atts)
  have o: "oxylabs_search env' w' q st RESULTS_PER_PAGE = oxylabs_search env w q st RESULTS_PER_PAGE"
    using same_but_io_fields(1)[OF e] sim_counts[OF Cons.prems] by (simp add: oxylabs_search_def)
  note ih = Cons.IH[OF sim_emit[OF Cons.prems, of "EvPage s b st a"]]
  show ?case
    using ih sim_emit[OF Cons.prems, of "EvPage s b st a"]
    by (cases "oxylabs_search env w q st RESULTS_PER_PAGE") (auto simp: o Let_def)
qed


lemma simc_simp [simp]: "simc (cs, st, w) (cs', st', w') = (cs = cs' \<and> st = st' \<and> sim w w')"
  by (simp add: simc_def)

lemma simc_same: "simc c c' \<Longrightarrow> fst c = fst c' \<and> fst (snd c) = fst (snd c')"
  by (simp add: simc_def)

lemma sim_process_result:
  assumes e: "same_but_io env env'" and s: "sim w w'"
  shows "rel_sum (=) simc (process_result env C sb br result (cs, st, w))
                          (process_result env' C sb br result (cs, st, w'))"
proof -
  have d: "db_faults env' (n_db w') = db_faults env (n_db w)" "w_db w' = w_db w"
    using same_but_io_fields(2)[OF e] sim_counts[OF s] s by (simp_all add: sim_def)
  have se: "sim (emit ev (w\<lparr>w_db := t\<rparr>)) (emit ev (w'\<lparr>w_db := t\<rparr>))" for ev t
    using s by (simp add: sim_def emit_def)
  show ?thesis
    using s se
    by (cases "extract_link_from_result result")
       (auto simp: process_result_def bindE_def Let_def d split: prod.splits)
qed

lemma sim_process_organic:
  assumes e: "same_but_io env env'"
  shows "sim w w' \<Longrightarrow> rel_prod (=) simc (process_organic env C sb br results (cs, st, w))
                          (process_organic env' C sb br results (cs, st, w'))"
proof (induction results arbitrary: cs st w w')
  case Nil
  then show ?case by simp
next
  case (Cons result results)
  note r = sim_process_result[OF e Cons.prems, of C sb br result cs st]
  show ?case
  proof (cases "process_result env C sb br result (cs, st, w)")
    case (Inl x)
    with r obtain y where "process_result env' C sb br result (cs, st, w') = Inl y" "x = y"
      by (cases "process_result env' C sb br result (cs, st, w')") auto
    with Inl Cons.prems show ?thesis by simp
  next
    case (Inr c1)
    with r obtain c1' where i: "process_result env' C sb br result (cs, st, w') = Inr c1'"
      and sc: "simc c1 c1'"
      by (cases "process_result env' C sb br result (cs, st, w')") auto
    obtain cs1 st1 w1 where c1: "c1 = (cs1, st1, w1)" by (cases c1) auto
    obtain cs1' st1' w1' where c1': "c1' = (cs1', st1', w1')" by (cases c1') auto
    from sc c1 c1' have eq: "cs1' = cs1" "st1' = st1" and sw: "sim w1 w1'" by auto
    from Cons.IH[OF sw, of cs1 st1] Inr i c1 c1' eq show ?thesis by simp
  qed
qed

lemma sim_finish_page:
  "sim w w' \<Longrightarrow> rel_prod (=) simc (finish_page (cs, st, w)) (finish_page (cs, st, w'))"
  by (auto simp: finish_page_def ceiling_check_def Let_def)

lemma sim_handle_page:
  assumes e: "same_but_io env env'" and s: "sim w w'"
  shows "rel_prod (=) simc (handle_page env C sb br data (cs, st, w))
                           (handle_page env' C sb br data (cs, st, w'))"
proof (cases "extract_results_from_oxylabs data")
  case (Inl x)
  with s show ?thesis by (simp add: handle_page_def)
next
  case organic: (Inr organic)
  show ?thesis
  proof (cases "extract_total_results data")
    case (Inl x)
    with organic s show ?thesis by (simp add: handle_page_def)
  next
    case tot: (Inr t)
    show ?thesis
    proof (cases "py_iter organic")
      case (Inl x)
      with organic tot s show ?thesis by (simp add: handle_page_def)
    next
      case (Inr results)
      let ?st = "st\<lparr>found_this_page := 0\<rparr>"
      obtain r c1 where p: "process_organic env C sb br results (cs, ?st, w) = (r, c1)"
        by (cases "process_organic env C sb br results (cs, ?st, w)") auto
      obtain r' c1' where p': "process_organic env' C sb br results (cs, ?st, w') = (r', c1')"
        by (cases "process_organic env' C sb br results (cs, ?st, w')") auto
      from sim_process_organic[OF e s, of C sb br results cs ?st] p p'
      have rr: "r' = r" and sc: "simc c1 c1'" by auto
      obtain cs1 st1 w1 where c1: "c1 = (cs1, st1, w1)" by (cases c1) auto
      obtain cs1' st1' w1' where c1': "c1' = (cs1', st1', w1')" by (cases c1') auto
      from sc c1 c1' have eq: "cs1' = cs1" "st1' = st1" and sw: "sim w1 w1'" by auto
      show ?thesis
        using organic tot Inr p p' rr c1 c1' eq sw sim_finish_page[OF sw, of cs1 st1]
        by (cases r) (simp_all add: handle_page_def)
    qed
  qed
qed

lemma sim_page_step:
  assumes e: "same_but_io env env'" and s: "sim w w'"
  shows "rel_prod (=) simc (page_step env C sb br q (cs, st, w))
                           (page_step env' C sb br q (cs, st, w'))"
proof -
  let ?c1 = "(ck cs)\<lparr>ck_start := start st, ck_page_num := page_num st,
                   ck_timestamp := Some (utcnow env (length (w_trace w)))\<rparr>"
  have c1': "(ck cs)\<lparr>ck_start := start st, ck_page_num := page_num st,
                   ck_timestamp := Some (utcnow env' (length (w_trace w')))\<rparr> = ?c1"
    using same_but_io_fields(3)[OF e] s by (simp add: sim_def)
  let ?w1 = "save_checkpoint env ?c1 w" and ?w1' = "save_checkpoint env' ?c1 w'"
  have s1: "sim ?w1 ?w1'" using s by (rule sim_save)
  obtain r w2 where fr: "fetch_retry env sb br q (start st) [1..<MAX_RETRIES + 1] ?w1 = (r, w2)"
    by (cases "fetch_retry env sb br q (start st) [1..<MAX_RETRIES + 1] ?w1") auto
  obtain r' w2' where fr': "fetch_retry env' sb br q (start st) [1..<MAX_RETRIES + 1] ?w1' = (r', w2')"
    by (cases "fetch_retry env' sb br q (start st) [1..<MAX_RETRIES + 1] ?w1'") auto
  from sim_fetch_retry[OF e s1, of sb br q "start st" "[1..<MAX_RETRIES + 1]"] fr fr'
  have rr: "r' = r" and s2: "sim w2 w2'" by auto
  show ?thesis
  proof (cases r)
    case (Inl x)
    with fr fr' rr s2 c1' show ?thesis by (simp add: page_step_def Let_def)
  next
    case (Inr data)
    show ?thesis
    proof (cases "data = JNull")
      case True
      with Inr fr fr' rr s2 c1' show ?thesis
        by (simp add: page_step_def Let_def sim_say)
    next
      case False
      with Inr fr fr' rr c1' sim_handle_page[OF e s2, of C sb br data "cs\<lparr>ck := ?c1\<rparr>" st]
      show ?thesis by (simp add: page_step_def Let_def)
    qed
  qed
qed

lemma sim_paginate:
  "same_but_io env env' \<Longrightarrow> sim w w'
   \<Longrightarrow> rel_prod (=) simc (paginate env C sb br q (cs, st, w))
                           (paginate env' C sb br q (cs, st, w'))"
proof (induction env C sb br q "(cs, st, w)" arbitrary: cs st w w' rule: paginate.induct)
  case (1 env C sb br q)
  show ?case
  proof (cases "start st \<le> max_start st")
    case False
    with "1.prems" show ?thesis
      by (simp add: paginate.simps[of _ _ _ _ _ "(cs, st, w)"]
            paginate.simps[of _ _ _ _ _ "(cs, st, w')"])
  next
    case True
    obtain v c1 where p: "page_step env C sb br q (cs, st, w) = (v, c1)"
      by (cases "page_step env C sb br q (cs, st, w)") auto
    obtain v' c1' where p': "page_step env' C sb br q (cs, st, w') = (v', c1')"
      by (cases "page_step env' C sb br q (cs, st, w')") auto
    from sim_page_step[OF "1.prems"(1) "1.prems"(2), of C sb br q cs st] p p'
    have vv: "v' = v" and sc: "simc c1 c1'" by auto
    obtain cs1 st1 w1 where c1: "c1 = (cs1, st1, w1)" by (cases c1) auto
    obtain cs1' st1' w1' where c1': "c1' = (cs1', st1', w1')" by (cases c1') auto
    from sc c1 c1' have eq: "cs1' = cs1" "st1' = st1" and sw: "sim w1 w1'" by auto
    show ?thesis
    proof (cases v)
      case Continue
      from "1.hyps"[of v cs1 st1 w1 w1'] "1.prems"(1) sw Continue True p c1
      have "rel_prod (=) simc (paginate env C sb br q (cs1, st1, w1))
                           (paginate env' C sb br q (cs1, st1, w1'))" by simp
      with True p p' vv c1 c1' eq Continue show ?thesis
        by (simp add: paginate.simps[of _ _ _ _ _ "(cs, st, w)"]
            paginate.simps[of _ _ _ _ _ "(cs, st, w')"])
    next
      case Break
      with True p p' vv c1 c1' eq sw show ?thesis
        by (simp add: paginate.simps[of _ _ _ _ _ "(cs, st, w)"]
            paginate.simps[of _ _ _ _ _ "(cs, st, w')"])
    next
      case (Raise x)
      with True p p' vv c1 c1' eq sw show ?thesis
        by (simp add: paginate.simps[of _ _ _ _ _ "(cs, st, w)"]
            paginate.simps[of _ _ _ _ _ "(cs, st, w')"])
    qed
  qed
qed


lemma sim_unit_body:
  assumes e: "same_but_io env env'" and s: "sim w w'"
  shows "rel_prod (=) simc (unit_body env C SUBS rso sb br (cs, st, w))
                           (unit_body env' C SUBS rso sb br (cs, st, w'))"
proof -
  have d: "db_faults env' (n_db w') = db_faults env (n_db w)" "w_db w' = w_db w"
    using same_but_io_fields(2)[OF e] sim_counts[OF s] s by (simp_all add: sim_def)
  have o: "oxylabs_search env' (emit ev w') q x n = oxylabs_search env (emit ev w) q x n" for ev q x n
    using same_but_io_fields(1)[OF e] sim_counts[OF sim_emit[OF s, of ev]]
    by (simp add: oxylabs_search_def)
  have sa: "sim (emit (EvProbe sb br) (emit (EvLoadSeen sb br) w))
                (emit (EvProbe sb br) (emit (EvLoadSeen sb br) w'))"
    using s by (simp add: sim_def emit_def)
  then have sb: "sim (say m (emit (EvProbe sb br) (emit (EvLoadSeen sb br) w)))
                (say m (emit (EvProbe sb br) (emit (EvLoadSeen sb br) w')))" for m
    by (simp add: sim_def say_def)
  note pa = sim_paginate[OF e sa] and pb = sim_paginate[OF e sb]
  show ?thesis
    unfolding unit_body_def Let_def prod.case d o
    using s
    by (auto split: sum.splits resume_action.splits prod.splits option.splits intro: pa pb)
qed

lemma sim_crawl_unit:
  assumes e: "same_but_io env env'" and s: "sim w w'"
  shows "rel_prod (=) sim (crawl_unit env C SUBS RM rso sb br (cs, w))
                          (crawl_unit env' C SUBS RM rso sb br (cs, w'))"
proof -
  let ?st0 = "\<lparr>start = 0, page_num = 0, brand_urls = 0, consecutive_empty = 0,
                    max_start = DEFAULT_MAX_START, seen_urls = {}, found_this_page = 0\<rparr>"
  obtain r c1 where u: "unit_body env C SUBS rso sb br (cs, ?st0, w) = (r, c1)"
    by (cases "unit_body env C SUBS rso sb br (cs, ?st0, w)") auto
  obtain r' c1' where u': "unit_body env' C SUBS rso sb br (cs, ?st0, w') = (r', c1')"
    by (cases "unit_body env' C SUBS rso sb br (cs, ?st0, w')") auto
  from sim_unit_body[OF e s, of C SUBS rso sb br cs ?st0] u u'
  have rr: "r' = r" and sc: "simc c1 c1'" by auto
  obtain cs1 st1 w1 where c1: "c1 = (cs1, st1, w1)" by (cases c1) auto
  obtain cs1' st1' w1' where c1': "c1' = (cs1', st1', w1')" by (cases c1') auto
  from sc c1 c1' have eq: "cs1' = cs1" "st1' = st1" and sw: "sim w1 w1'" by auto
  have "sim (save_checkpoint env c (case r of Some x \<Rightarrow> say (LogBrandException sb br x) w1 | None \<Rightarrow> w1))
            (save_checkpoint env' c (case r of Some x \<Rightarrow> say (LogBrandException sb br x) w1' | None \<Rightarrow> w1'))" for c
    using sw by (intro sim_save) (cases r; simp add: sim_def say_def)
  with u u' rr c1 c1' eq show ?thesis
    by (simp add: crawl_unit_def Let_def)
qed

lemma sim_crawl_brands:
  assumes e: "same_but_io env env'"
  shows "sim w w' \<Longrightarrow> rel_prod (=) sim (crawl_brands env C SUBS RM rso sb brands (cs, w))
                          (crawl_brands env' C SUBS RM rso sb brands (cs, w'))"
proof (induction brands arbitrary: cs w w')
  case Nil
  then show ?case by simp
next
  case (Cons br brands)
  obtain cs1 w1 where u: "crawl_unit env C SUBS RM rso sb br (cs, w) = (cs1, w1)"
    by (cases "crawl_unit env C SUBS RM rso sb br (cs, w)") auto
  obtain cs1' w1' where u': "crawl_unit env' C SUBS RM rso sb br (cs, w') = (cs1', w1')"
    by (cases "crawl_unit env' C SUBS RM rso sb br (cs, w')") auto
  from sim_crawl_unit[OF e Cons.prems, of C SUBS RM rso sb br cs] u u'
  have "cs1' = cs1" "sim w1 w1'" by auto
  with Cons.IH[of w1 w1' cs1] u u' show ?case by simp
qed

lemma sim_crawl_subs:
  assumes e: "same_but_io env env'"
  shows "sim w w' \<Longrightarrow> rel_prod (=) sim (crawl_subs env C SUBS RM rso items (cs, w))
                          (crawl_subs env' C SUBS RM rso items (cs, w'))"
proof (induction items arbitrary: cs w w')
  case Nil
  then show ?case by simp
next
  case (Cons item items)
  obtain sb brands where item: "item = (sb, brands)" by (cases item) auto
  obtain cs1 w1 where u: "crawl_brands env C SUBS RM rso sb brands (cs, w) = (cs1, w1)"
    by (cases "crawl_brands env C SUBS RM rso sb brands (cs, w)") auto
  obtain cs1' w1' where u': "crawl_brands env' C SUBS RM rso sb brands (cs, w') = (cs1', w1')"
    by (cases "crawl_brands env' C SUBS RM rso sb brands (cs, w')") auto
  from sim_crawl_brands[OF e Cons.prems, of C SUBS RM rso sb brands cs] u u'
  have "cs1' = cs1" "sim w1 w1'" by auto
  with Cons.IH[of w1 w1' cs1] Cons.IH[OF Cons.prems, of cs] u u' item show ?case by simp
qed

lemma sim_crawl_units:
  assumes e: "same_but_io env env'" and s: "sim w w'"
  shows "rel_prod (=) sim (crawl_units env sheet C SUBS RM rso w)
                           (crawl_units env' sheet C SUBS RM rso w')"
proof -
  define cs0 where "cs0 = \<lparr>ck = initial_ck sheet C rso, total_urls_found = 0, log_stats = [],
                              skip_until_resume = (rso \<noteq> None)\<rparr>"
  obtain cs1 w1 where u: "crawl_subs env C SUBS RM rso SUBS (cs0, w) = (cs1, w1)"
    by (cases "crawl_subs env C SUBS RM rso SUBS (cs0, w)") auto
  obtain cs1' w1' where u': "crawl_subs env' C SUBS RM rso SUBS (cs0, w') = (cs1', w1')"
    by (cases "crawl_subs env' C SUBS RM rso SUBS (cs0, w')") auto
  from sim_crawl_subs[OF e s, of C SUBS RM rso SUBS cs0] u u'
  have eq: "cs1' = cs1" and sw: "sim w1 w1'" by auto
  have "sim (say m w1) (say m w1')" for m using sw by (simp add: sim_def say_def)
  with u[unfolded cs0_def] u'[unfolded cs0_def] eq show ?thesis
    by (simp add: crawl_units_def Let_def del: not_None_eq)
qed

lemma sim_crawl:
  assumes e: "same_but_io env env'" and s: "sim w w'"
  shows "rel_option (rel_prod (=) sim) (crawl env sheet rj w) (crawl env' sheet rj w')"
proof -
  have rd: "read_sheet env' sheet = read_sheet env sheet"
    using same_but_io_fields(6)[OF e] by (simp add: read_sheet_def)
  have d: "db_faults env' (n_db w') = db_faults env (n_db w)"
    using same_but_io_fields(2)[OF e] sim_counts[OF s] by simp
  note cr = same_but_io_fields(4,5)[OF e]
  have se: "sim (emit EvInitDb w) (emit EvInitDb w')" using s by (rule sim_emit)
  have ss: "sim a b \<Longrightarrow> sim (say m a) (say m b)" for a b m by (simp add: sim_def say_def)
  show ?thesis
  proof (cases "load_subcategories_from_excel (read_sheet env sheet)")
    case (Inl x)
    with s show ?thesis by (simp add: crawl_def rd)
  next
    case (Inr wl)
    obtain C SUBS RM where wl: "wl = (C, SUBS, RM)" by (cases wl) auto
    show ?thesis
    proof (cases "unset (OXYLABS_USERNAME env) \<or> unset (OXYLABS_PASSWORD env)")
      case True
      with Inr wl ss[OF s] show ?thesis by (simp add: crawl_def rd cr)
    next
      case False
      show ?thesis
      proof (cases "init_db (db_faults env (n_db w))")
        case (Inl x)
        with Inr wl False se show ?thesis by (simp add: crawl_def rd cr d)
      next
        case u: (Inr u)
        note cu = sim_crawl_units[OF e se, of sheet C SUBS RM]
        have unf: "crawl env sheet rj w =
            (case rj of
               JNull \<Rightarrow> Some (crawl_units env sheet C SUBS RM None (emit EvInitDb w))
             | JObj kvs \<Rightarrow>
                 (case as_checkpoint rj of
                    None \<Rightarrow> None
                  | Some rs \<Rightarrow> Some (crawl_units env sheet C SUBS RM (Some rs) (emit EvInitDb w)))
             | _ \<Rightarrow>
                 if truthy rj then Some (Some AttributeError, emit EvInitDb w)
                 else Some (if SUBS = [] then None else Some AttributeError,
                            say (LogSummary [] 0) (emit EvInitDb w)))"
          using Inr wl False u by (simp add: crawl_def)
        have unf': "crawl env' sheet rj w' =
            (case rj of
               JNull \<Rightarrow> Some (crawl_units env' sheet C SUBS RM None (emit EvInitDb w'))
             | JObj kvs \<Rightarrow>
                 (case as_checkpoint rj of
                    None \<Rightarrow> None
                  | Some rs \<Rightarrow> Some (crawl_units env' sheet C SUBS RM (Some rs) (emit EvInitDb w')))
             | _ \<Rightarrow>
                 if truthy rj then Some (Some AttributeError, emit EvInitDb w')
                 else Some (if SUBS = [] then None else Some AttributeError,
                            say (LogSummary [] 0) (emit EvInitDb w')))"
          using Inr wl False u by (simp add: crawl_def rd cr d)
        show ?thesis
          unfolding unf unf' using cu se ss[OF se]
          by (cases rj; cases "as_checkpoint rj") simp_all
      qed
    qed
  qed
qed

lemma sim_main_loop:
  assumes e: "same_but_io env env'"
  shows "sim w w' \<Longrightarrow> rel_option sim (main_loop env sheets resume w) (main_loop env' sheets resume w')"
proof (induction sheets arbitrary: resume w w')
  case Nil
  then show ?case by simp
next
  case (Cons sheet sheets)
  have st: "sim a b \<Longrightarrow> sim (say m a) (say m b)" for a b m by (simp add: sim_def say_def)
  have step: "rel_option sim
        (case crawl env sheet rj w of
           None \<Rightarrow> None
         | Some (None, w1) \<Rightarrow> main_loop env sheets nxt w1
         | Some (Some x, w1) \<Rightarrow> Some (say (LogSheetStopped sheet) w1))
        (case crawl env' sheet rj w' of
           None \<Rightarrow> None
         | Some (None, w1) \<Rightarrow> main_loop env' sheets nxt w1
         | Some (Some x, w1) \<Rightarrow> Some (say (LogSheetStopped sheet) w1))" for rj nxt
  proof (cases "crawl env sheet rj w")
    case None
    with sim_crawl[OF e Cons.prems, of sheet rj] show ?thesis by simp
  next
    case (Some a)
    obtain r w1 where a: "a = (r, w1)" by (cases a) auto
    from sim_crawl[OF e Cons.prems, of sheet rj] Some a obtain w1' where
      c': "crawl env' sheet rj w' = Some (r, w1')" and sw: "sim w1 w1'"
      by (cases "crawl env' sheet rj w'") auto
    show ?thesis
    proof (cases r)
      case None
      with Some a c' Cons.IH[OF sw, of nxt] show ?thesis by simp
    next
      case (Some x)
      with \<open>crawl env sheet rj w = Some a\<close> a c' st[OF sw] show ?thesis by simp
    qed
  qed
  show ?case
  proof (cases "truthy resume")
    case False
    with step[where rj=JNull and nxt=resume] show ?thesis by simp
  next
    case True
    show ?thesis
    proof (cases "py_get resume ''sheet'' JNull")
      case (Inl x)
      with True st[OF Cons.prems] show ?thesis by simp
    next
      case (Inr sh)
      show ?thesis
      proof (cases "sh = JStr sheet")
        case False
        with True Inr Cons.IH[OF st[OF Cons.prems, where m="LogSkipSheet sheet"],
                               where resume=resume]
        show ?thesis by simp
      next
        case eq: True
        with True Inr step[where rj=resume and nxt=JNull] show ?thesis by simp
      qed
    qed
  qed
qed

lemma sim_main_from:
  assumes e: "same_but_io env env'"
    and lc: "load_checkpoint (ckpt_stat env) (ckpt_readable env) (json_loads env) (w_files w)
               = (res, msgs)"
    and lc': "load_checkpoint (ckpt_stat env') (ckpt_readable env') (json_loads env') (w_files w')
               = (res, msgs')"
    and s: "sim w w'"
  shows "same_run (main env w) (main env' w')"
proof -
  note f = same_but_io_fields[OF e]
  have s1: "sim (w\<lparr>w_log := l\<rparr>) (w'\<lparr>w_log := l'\<rparr>)" for l l'
    using s by (simp add: sim_def)
  show ?thesis
  proof (cases res)
    case (Inl x)
    with lc lc' s show ?thesis by (simp add: main_def same_run_def sim_def)
  next
    case (Inr resume)
    show ?thesis
    proof (cases "workbook env")
      case None
      with Inr lc lc' s show ?thesis
        by (simp add: main_def same_run_def sim_def say_def f(6))
    next
      case (Some sheets)
      from sim_main_loop[OF e s1[of "w_log w @ msgs" "w_log w' @ msgs'"],
                         where sheets="map fst sheets" and resume=resume]
      show ?thesis using Inr lc lc' Some
        by (cases "main_loop env (map fst sheets) resume (w\<lparr>w_log := w_log w @ msgs\<rparr>)";
            cases "main_loop env' (map fst sheets) resume (w'\<lparr>w_log := w_log w' @ msgs'\<rparr>)")
           (simp_all add: main_def same_run_def sim_def f(6))
    qed
  qed
qed

lemma sim_main:
  assumes e: "same_but_io env env'"
  shows "same_run (main env w) (main env' w)"
proof -
  note f = same_but_io_fields[OF e]
  obtain res msgs where
    lc: "load_checkpoint (ckpt_stat env) (ckpt_readable env) (json_loads env) (w_files w) = (res, msgs)"
    by (cases "load_checkpoint (ckpt_stat env) (ckpt_readable env) (json_loads env) (w_files w)") auto
  then have lc': "load_checkpoint (ckpt_stat env') (ckpt_readable env') (json_loads env') (w_files w)
                    = (res, msgs)"
    by (simp add: f)
  show ?thesis by (rule sim_main_from[OF e lc lc']) (simp add: sim_def)
qed

lemma load_checkpoint_value:
  "fst (load_checkpoint stat readable loads f)
     = (case stat of
          Some e \<Rightarrow> Inl e
        | None \<Rightarrow>
            Inr (case f CHECKPOINT_FILE of
                   None \<Rightarrow> JNull
                 | Some content \<Rightarrow>
                     if readable then (case loads content of Inl e \<Rightarrow> JNull | Inr v \<Rightarrow> v)
                     else JNull))"
  by (simp add: load_checkpoint_def load_checkpoint_body_def try_except_def Let_def
        split: option.splits sum.splits)

lemma unusable_file_as_no_file:
  assumes st: "ckpt_stat env = None"
    and fl: "w_files w CHECKPOINT_FILE = Some content"
    and bad: "load_checkpoint_body (ckpt_readable env) (json_loads env) content = Inl e"
  shows "same_run (main env w) (main env (w\<lparr>w_files := (w_files w)(CHECKPOINT_FILE := None)\<rparr>))"
proof -
  have a: "load_checkpoint (ckpt_stat env) (ckpt_readable env) (json_loads env) (w_files w)
             = (Inr JNull, [LogCheckpointReadFailed])"
    using st fl bad by (simp add: load_checkpoint_def try_except_def)
  have b: "load_checkpoint (ckpt_stat env) (ckpt_readable env) (json_loads env)
             (w_files (w\<lparr>w_files := (w_files w)(CHECKPOINT_FILE := None)\<rparr>))
             = (Inr JNull, [])"
    using st by (simp add: load_checkpoint_def)
  have e: "same_but_io env env" by (simp add: same_but_io_def)
  show ?thesis by (rule sim_main_from[OF e a b]) (simp add: sim_def)
qed

text \<open>
  What holds of the failures of the checkpoint store. The body of \<^verbatim>\<open>save_checkpoint\<close>
  raises when the open, the dump or the replace fails; \<^verbatim>\<open>save_checkpoint\<close> itself returns
  normally in every case, with one line logged and the canonical file untouched when it
  failed. \<^verbatim>\<open>load_checkpoint\<close> raises only what the test for the file's existence raises;
  otherwise it returns \<^verbatim>\<open>None\<close> when there is no file, when the file cannot be opened and
  when its content does not decode, and the decoded value, whatever it is, when it does.
  A run is the same whatever goes wrong in its saves: it ends the same way, makes the same
  calls in the same order and leaves the same table. A run whose checkpoint cannot be
  opened or decoded is the run made without the file. A run whose checkpoint is no dict,
  or a dict with the fields of the types that \<^verbatim>\<open>crawl\<close> writes, is within the model.
\<close>

lemma checkpoint_store_failures_contained:
  "fst (save_checkpoint_body fault chunks f) = (if fault = IoOk then Inr () else Inl OSError)
   \<and> fst (save_checkpoint_fs fault chunks f) = Inr ()
   \<and> snd (snd (save_checkpoint_fs fault chunks f))
        = (if fault = IoOk then [] else [LogCheckpointSaveFailed])
   \<and> fst (snd (save_checkpoint_fs fault chunks f)) CHECKPOINT_FILE
        = (if fault = IoOk then Some (concat chunks) else f CHECKPOINT_FILE)
   \<and> fst (load_checkpoint stat readable loads f)
        = (case stat of
             Some e \<Rightarrow> Inl e
           | None \<Rightarrow>
               Inr (case f CHECKPOINT_FILE of
                      None \<Rightarrow> JNull
                    | Some content \<Rightarrow>
                        if readable then (case loads content of Inl e \<Rightarrow> JNull | Inr v \<Rightarrow> v)
                        else JNull))
   \<and> same_run (main (env\<lparr>io_faults := faults\<rparr>) w) (main env w)
   \<and> (ckpt_stat env = None \<and> w_files w CHECKPOINT_FILE = Some content
        \<and> load_checkpoint_body (ckpt_readable env) (json_loads env) content = Inl e
        \<longrightarrow> same_run (main env w)
              (main env (w\<lparr>w_files := (w_files w)(CHECKPOINT_FILE := None)\<rparr>)))
   \<and> ((\<forall>rj. fst (load_checkpoint (ckpt_stat env) (ckpt_readable env) (json_loads env)
                    (w_files w)) = Inr rj \<longrightarrow> modelled rj)
        \<longrightarrow> main env w \<noteq> None)"
proof -
  have a: "fst (save_checkpoint_body fault chunks f) = (if fault = IoOk then Inr () else Inl OSError)"
    by (cases fault) (simp_all add: save_checkpoint_body_def)
  have b: "fst (save_checkpoint_fs fault chunks f) = Inr ()"
    by (simp add: save_checkpoint_fs_def try_except_def split: prod.splits sum.splits)
  have c: "snd (snd (save_checkpoint_fs fault chunks f))
        = (if fault = IoOk then [] else [LogCheckpointSaveFailed])"
    by (cases fault) (simp_all add: save_checkpoint_fs_def save_checkpoint_body_def)
  have d: "fst (snd (save_checkpoint_fs fault chunks f)) CHECKPOINT_FILE
        = (if fault = IoOk then Some (concat chunks) else f CHECKPOINT_FILE)"
    using body_canonical[of fault chunks f]
    by (simp add: save_checkpoint_fs_def case_prod_beta)
  note l = load_checkpoint_value[of stat readable loads f]
  have "same_but_io env (env\<lparr>io_faults := faults\<rparr>)"
    by (simp add: same_but_io_def)
  from sim_main[OF this, of w] have m: "same_run (main (env\<lparr>io_faults := faults\<rparr>) w) (main env w)"
    by (auto simp: same_run_def split: option.splits prod.splits)
  have n: "same_run (main env w)
              (main env (w\<lparr>w_files := (w_files w)(CHECKPOINT_FILE := None)\<rparr>))"
    if "ckpt_stat env = None" "w_files w CHECKPOINT_FILE = Some content"
      "load_checkpoint_body (ckpt_readable env) (json_loads env) content = Inl e"
    using unusable_file_as_no_file[OF that] .
  have o: "main env w \<noteq> None"
    if "\<forall>rj. fst (load_checkpoint (ckpt_stat env) (ckpt_readable env) (json_loads env)
                    (w_files w)) = Inr rj \<longrightarrow> modelled rj"
    using main_modelled[of env w] that by auto
  from a b c d l m n o show ?thesis by blast
qed

lemma checkpoint_store_failures_contained_example:
  "same_run (main (env_shoes\<lparr>io_faults := open_always_fails\<rparr>) world0) (main env_shoes world0)
   \<and> fst (the (main (env_shoes\<lparr>io_faults := open_always_fails\<rparr>) world0)) = None
   \<and> fst (save_checkpoint_fs OpenFails (chunks0 adidas_ck) no_files) = Inr ()
   \<and> fst (save_checkpoint_body OpenFails (chunks0 adidas_ck) no_files) = Inl OSError
   \<and> fst (snd (save_checkpoint_fs OpenFails (chunks0 adidas_ck) no_files)) CHECKPOINT_FILE = None
   \<and> ckpt_stat env_unreadable = None \<and> w_files world_ck CHECKPOINT_FILE = Some ''{}''
   \<and> load_checkpoint_body (ckpt_readable env_unreadable) (json_loads env_unreadable) ''{}''
        = Inl OSError
   \<and> same_run (main env_unreadable world_ck)
        (main env_unreadable (world_ck\<lparr>w_files := (w_files world_ck)(CHECKPOINT_FILE := None)\<rparr>))
   \<and> fst (load_checkpoint (ckpt_stat env_unreadable) (ckpt_readable env_unreadable)
             (json_loads env_unreadable) (w_files world_ck)) = Inr JNull
   \<and> modelled JNull
   \<and> main env_unreadable world_ck \<noteq> None
   \<and> w_trace (snd (the (main env_unreadable world_ck))) = w_trace (snd (the (main env_shoes world0)))"
proof -
  have n: "fst (the (main (env_shoes\<lparr>io_faults := open_always_fails\<rparr>) world0)) = None"
    by code_simp
  have f: "no_files CHECKPOINT_FILE = None" by code_simp
  have h1: "ckpt_stat env_unreadable = None" by code_simp
  have h2: "w_files world_ck CHECKPOINT_FILE = Some ''{}''" by code_simp
  have h3: "load_checkpoint_body (ckpt_readable env_unreadable) (json_loads env_unreadable) ''{}''
        = Inl OSError" by code_simp
  have h4: "fst (load_checkpoint (ckpt_stat env_unreadable) (ckpt_readable env_unreadable)
             (json_loads env_unreadable) (w_files world_ck)) = Inr JNull" by code_simp
  have h5: "modelled JNull" by code_simp
  have h6: "w_trace (snd (the (main env_unreadable world_ck)))
              = w_trace (snd (the (main env_shoes world0)))" by code_simp
  note t = checkpoint_store_failures_contained[where fault=OpenFails
      and chunks="chunks0 adidas_ck" and f=no_files and stat=None and readable=True and loads=loads0
      and env=env_shoes and faults=open_always_fails and w=world0]
  note u = checkpoint_store_failures_contained[where fault=OpenFails
      and chunks="chunks0 adidas_ck" and f=no_files and stat=None and readable=True and loads=loads0
      and env=env_unreadable and faults=open_always_fails and w=world_ck
      and content="''{}''" and e=OSError]
  from u h1 h2 h3 have u1: "same_run (main env_unreadable world_ck)
        (main env_unreadable (world_ck\<lparr>w_files := (w_files world_ck)(CHECKPOINT_FILE := None)\<rparr>))"
    by blast
  from u h4 h5 have u2: "main env_unreadable world_ck \<noteq> None" by simp
  from t n f h1 h2 h3 h4 h5 h6 u1 u2 show ?thesis by simp
qed

text \<open>
  Claim C10 at two checkpoints that are of no use. When the test for the file's existence
  raises, \<^verbatim>\<open>load_checkpoint\<close> raises instead of returning \<^verbatim>\<open>None\<close>: the test stands before the
  \<^verbatim>\<open>try\<close> whose handler says "starting fresh", and the call stands at a line of the script
  that no handler covers, so the run ends there, before any sheet is read. And a file that
  holds valid JSON which is no object is returned as it is, not as \<^verbatim>\<open>None\<close>: the loop of the
  script stops at the first sheet, on the AttributeError of \<^verbatim>\<open>resume.get\<close>, and no unit is
  crawled, where the same run without the file crawls the sheet.
\<close>

theorem checkpoint_load_can_stop_the_run:
  "fst (load_checkpoint (ckpt_stat env_stat_fails) (ckpt_readable env_stat_fails)
          (json_loads env_stat_fails) (w_files world_ck)) = Inl OSError
   \<and> fst (the (main env_stat_fails world_ck)) = Some OSError
   \<and> w_trace (snd (the (main env_stat_fails world_ck))) = []
   \<and> fst (load_checkpoint (ckpt_stat env_list_file) (ckpt_readable env_list_file)
          (json_loads env_list_file) (w_files world_ck)) = Inr (JArr [JInt 1, JInt 2])
   \<and> w_log (snd (the (main env_list_file world_ck))) = [LogSheetStopped ''S1'']
   \<and> w_trace (snd (the (main env_list_file world_ck))) = []
   \<and> w_trace (snd (the (main env_list_file world_no_ck))) \<noteq> []"
  by code_simp

section \<open>The ceiling derived from the first request\<close>

text \<open>
  Reading a count back: \<^verbatim>\<open>int(str(total).replace(',', ''))\<close> on a decimal numeral with
  separators gives the number.
\<close>

lemma digit_char: "d < 10 \<Longrightarrow> is_digit (char_of (48 + d)) \<and> digit_val (char_of (48 + d)) = int d
    \<and> \<not> is_int_space (char_of (48 + d)) \<and> char_of (48 + d) \<noteq> CHR ''_''
    \<and> char_of (48 + d) \<noteq> CHR ''-'' \<and> char_of (48 + d) \<noteq> CHR ''+''"
proof -
  assume d: "d < (10::nat)"
  then have o: "(of_char (char_of (48 + d) :: char) :: nat) = 48 + d" by simp
  have n1: "(of_char (CHR ''_'') :: nat) = 95" "(of_char (CHR ''-'') :: nat) = 45"
    "(of_char (CHR ''+'') :: nat) = 43" by simp_all
  note n1 [simp del]
  have ne: "char_of (48 + d) \<noteq> c" if "(of_char c :: nat) \<notin> {48..57}" for c :: char
  proof
    assume "char_of (48 + d) = c"
    then have "(of_char c :: nat) = 48 + d" using o by simp
    with that d show False by simp
  qed
  have "char_of (48 + d) \<noteq> CHR ''_''" "char_of (48 + d) \<noteq> CHR ''-''" "char_of (48 + d) \<noteq> CHR ''+''"
    by (rule ne, simp)+
  then show ?thesis using o d by (simp add: is_digit_def digit_val_def is_int_space_def)
qed

lemma decimal_chars: "c \<in> set (decimal n) \<Longrightarrow> is_digit c \<and> \<not> is_int_space c \<and> c \<noteq> CHR ''_''
     \<and> c \<noteq> CHR ''-'' \<and> c \<noteq> CHR ''+''"
proof (induction n rule: decimal.induct)
  case (1 n)
  show ?case
  proof (cases "n < 10")
    case True
    with "1.prems" show ?thesis using digit_char[of n] by (simp add: decimal.simps[of n])
  next
    case False
    have "n mod 10 < 10" by simp
    with False "1.prems" "1.IH" show ?thesis
      using digit_char[of "n mod 10"] by (auto simp: decimal.simps[of n])
  qed
qed

lemma decimal_nonempty: "decimal n \<noteq> []"
  by (subst decimal.simps) simp

lemma decimal_length: "0 < k \<Longrightarrow> n < 10 ^ k \<Longrightarrow> length (decimal n) \<le> k"
proof (induction n arbitrary: k rule: decimal.induct)
  case (1 n)
  show ?case
  proof (cases "n < 10")
    case True
    with "1.prems" show ?thesis by (simp add: decimal.simps[of n])
  next
    case False
    from False "1.prems" have k: "1 < k" by (cases "k = 1") auto
    then obtain j where j: "k = Suc j" "0 < j" by (cases k) auto
    from "1.prems"(2) j have "n div 10 < 10 ^ j"
      by (simp add: less_mult_imp_div_less mult.commute)
    from "1.IH"[OF False j(2) this] False j show ?thesis
      by (simp add: decimal.simps[of n])
  qed
qed

lemma digits_ok_all: "s \<noteq> [] \<Longrightarrow> \<forall>c\<in>set s. is_digit c \<and> c \<noteq> CHR ''_'' \<Longrightarrow> digits_ok s"
  by (induction s rule: digits_ok.induct) auto

lemma digits_value_snoc:
  "is_digit c \<Longrightarrow> digits_value (s @ [c]) = 10 * digits_value s + digit_val c"
  by (simp add: digits_value_def)

lemma digits_value_decimal: "digits_value (decimal n) = int n"
proof (induction n rule: decimal.induct)
  case (1 n)
  show ?case
  proof (cases "n < 10")
    case True
    then show ?thesis using digit_char[of n]
      by (simp add: decimal.simps[of n] digits_value_def)
  next
    case False
    have "n mod 10 < 10" by simp
    have "10 * int (n div 10) + int (n mod 10) = int n"
      by (metis mult.commute of_nat_add of_nat_mult of_nat_numeral div_mult_mod_eq)
    with digit_char[OF \<open>n mod 10 < 10\<close>] False "1.IH" show ?thesis
      by (simp add: decimal.simps[of n] digits_value_snoc)
  qed
qed

lemma int_strip_id:
  "\<forall>c\<in>set s. \<not> is_int_space c
   \<Longrightarrow> rev (dropWhile is_int_space (rev (dropWhile is_int_space s))) = s"
proof -
  assume a: "\<forall>c\<in>set s. \<not> is_int_space c"
  have d: "dropWhile is_int_space t = t" if "\<forall>c\<in>set t. \<not> is_int_space c" for t
    using that by (cases t) auto
  from a have "dropWhile is_int_space (rev s) = rev s" by (intro d) simp
  with d[OF a] show ?thesis by simp
qed

lemma py_int_decimal:
  assumes "length (decimal n) \<le> max_str_digits"
  shows "py_int (decimal n) = Inr (int n)"
proof -
  have s: "rev (dropWhile is_int_space (rev (dropWhile is_int_space (decimal n)))) = decimal n"
    using decimal_chars by (intro int_strip_id) blast
  have h: "hd (decimal n) \<in> set (decimal n)" using decimal_nonempty by simp
  have sg: "hd (decimal n) \<noteq> CHR ''-''" "hd (decimal n) \<noteq> CHR ''+''"
    using decimal_chars[OF h] by simp_all
  have ok: "digits_ok (decimal n)"
    using decimal_chars decimal_nonempty by (intro digits_ok_all) blast+
  have f: "filter is_digit (decimal n) = decimal n"
    using decimal_chars by (intro filter_True) blast
  show ?thesis
    using assms by (simp add: py_int_def s Let_def sg ok f digits_value_decimal)
qed

lemma short_numeral: "int n < 10 * 2 ^ 50 \<Longrightarrow> length (decimal n) \<le> max_str_digits"
proof -
  assume "int n < 10 * 2 ^ 50"
  then have "n < 10 ^ 17" by simp
  from decimal_length[OF _ this] show ?thesis by (simp add: max_str_digits_def)
qed

lemma int_of_total_rendered:
  "int n < 10 * 2 ^ 50 \<Longrightarrow> filter (\<lambda>c. c \<noteq> CHR '','') s = decimal n
   \<Longrightarrow> int_of_total (JStr s) = Inr (int n)"
  by (simp add: py_int_decimal short_numeral)

lemma int_of_total_int:
  "int n < 10 * 2 ^ 50 \<Longrightarrow> int_of_total (JInt (int n)) = Inr (int n)"
  by (simp add: short_numeral)

text \<open>
  The quotient \<^verbatim>\<open>total_results / RESULTS_PER_PAGE\<close> is a double. Below \<open>10 * 2 ^ 50\<close> its
  rounding error is too small to carry it across an integer, so \<^verbatim>\<open>ceil\<close> of the double is the
  ceiling of the exact quotient.
\<close>

lemma bit_length_nonneg: "0 \<le> bit_length n"
proof (induction n rule: bit_length.induct)
  case (1 n)
  then show ?case by (subst bit_length.simps) auto
qed

lemma bit_length_upper: "0 \<le> j \<Longrightarrow> n < 2 ^ nat j \<Longrightarrow> bit_length n \<le> j"
proof (induction n arbitrary: j rule: bit_length.induct)
  case (1 n)
  show ?case
  proof (cases "n \<le> 0")
    case True
    with "1.prems" show ?thesis by (subst bit_length.simps) simp
  next
    case False
    then have j: "0 < j"
      using "1.prems" by (cases "j = 0") auto
    then have p: "(2::int) ^ nat j = 2 * 2 ^ nat (j - 1)"
      by (metis Suc_nat_eq_nat_zadd1 add.commute diff_add_cancel diff_ge_0_iff_ge
          int_one_le_iff_zero_less power_Suc)
    with "1.prems" have "n div 2 < 2 ^ nat (j - 1)" by simp
    from "1.IH"[OF False _ this] j have "bit_length (n div 2) \<le> j - 1" by simp
    with False show ?thesis by (subst bit_length.simps) simp
  qed
qed

lemma bit_length_10: "bit_length 10 = 4"
  by code_simp

lemma floor_log2_quot_le:
  assumes T: "0 < T" "T < 10 * 2 ^ 50"
  shows "floor_log2_quot T 10 \<le> 49"
proof -
  have "T < 2 ^ nat 54" using T by simp
  from bit_length_upper[OF _ this] have b: "bit_length T \<le> 54" by simp
  show ?thesis
  proof (cases "bit_length T = 54")
    case True
    with T show ?thesis by (simp add: floor_log2_quot_def bit_length_10 Let_def)
  next
    case False
    with b have "bit_length T - 4 \<le> 49" by simp
    then show ?thesis by (auto simp: floor_log2_quot_def bit_length_10 Let_def)
  qed
qed

lemma round_half_even_near:
  assumes "0 < d"
  shows "\<bar>2 * (d * round_half_even n d - n)\<bar> \<le> d"
proof -
  define q where "q = n div d"
  define r where "r = n mod d"
  have r: "0 \<le> r" "r < d" using assms by (simp_all add: r_def)
  have n: "n = d * q + r" by (simp add: q_def r_def)
  have e0: "d * q - n = - r" using n by linarith
  have e1: "d * (q + 1) - n = d - r" using n by (simp add: algebra_simps)
  have v: "round_half_even n d = q \<and> 2 * r \<le> d \<or> round_half_even n d = q + 1 \<and> d \<le> 2 * r"
    by (auto simp: round_half_even_def Let_def q_def[symmetric] r_def[symmetric])
  then show ?thesis
  proof
    assume a: "round_half_even n d = q \<and> 2 * r \<le> d"
    then have "d * round_half_even n d - n = - r" using e0 by simp
    with a r show ?thesis by simp
  next
    assume a: "round_half_even n d = q + 1 \<and> d \<le> 2 * r"
    then have "d * round_half_even n d - n = d - r" using e1 by simp
    with a r show ?thesis by simp
  qed
qed

lemma ceil_of_rounded:
  fixes P T m :: int
  assumes P: "8 \<le> P" and T: "0 < T"
    and m: "\<bar>2 * (10 * m - T * P)\<bar> \<le> 10"
  shows "- ((- m) div P) = (T + 9) div 10"
proof -
  define c where "c = (T + 9) div 10"
  have c: "10 * c - 9 \<le> T" "T \<le> 10 * c" unfolding c_def by presburger+
  have u: "T * P \<le> (10 * c) * P" using c(2) P by (intro mult_right_mono) simp_all
  have l: "(10 * c - 9) * P \<le> T * P" using c(1) P by (intro mult_right_mono) simp_all
  define X where "X = c * P"
  define n where "n = T * P"
  have u': "n \<le> 10 * X" using u by (simp add: X_def n_def algebra_simps)
  have l': "10 * X - 9 * P \<le> n" using l by (simp add: X_def n_def algebra_simps)
  from m have mm: "\<bar>2 * (10 * m - n)\<bar> \<le> 10" by (simp add: n_def)
  have m1: "10 * m \<le> n + 5" using mm unfolding abs_le_iff by auto
  have m2: "n - 5 \<le> 10 * m" using mm unfolding abs_le_iff by auto
  have hi: "m \<le> X" using m1 u' by linarith
  have lo: "X - P < m" using m2 l' P by linarith
  have "(- m) div P = - c"
  proof (rule int_div_pos_eq[where r="X - m"])
    show "- m = P * (- c) + (X - m)" by (simp add: X_def algebra_simps)
    show "0 \<le> X - m" using hi by simp
    show "X - m < P" using lo by simp
  qed
  then show ?thesis by (simp add: c_def)
qed

lemma ceil_truediv_exact:
  assumes T: "0 < T" "T < 10 * 2 ^ 50"
  shows "bindE (py_truediv T 10) (\<lambda>q. Inr (py_ceil q)) = Inr ((T + 9) div 10)"
proof -
  define k where "k = floor_log2_quot T 10"
  have k: "k \<le> 49" using floor_log2_quot_le[OF T] by (simp add: k_def)
  define sh where "sh = nat (- (k - 52))"
  have sh: "3 \<le> sh" using k by (simp add: sh_def)
  define m where "m = round_half_even (T * 2 ^ sh) 10"
  have P: "(8::int) \<le> 2 ^ sh"
    using power_increasing[OF sh, of "2::int"] by simp
  have near: "\<bar>2 * (10 * m - T * 2 ^ sh)\<bar> \<le> 10"
    using round_half_even_near[of 10 "T * 2 ^ sh"] by (simp add: m_def)
  have tv: "py_truediv T 10 = Inr (m, k - 52)"
    using k by (simp add: py_truediv_def k_def[symmetric] Let_def m_def sh_def)
  have "py_ceil (m, k - 52) = - ((- m) div 2 ^ sh)"
    using k by (simp add: py_ceil_def sh_def)
  with ceil_of_rounded[OF P T(1) near] tv show ?thesis
    by (simp add: bindE_def)
qed

text \<open>
  The two kinds of whitespace at work: the separator 31 after a numeral is stripped by
  \<^verbatim>\<open>str.strip()\<close> and rejected by \<^verbatim>\<open>int()\<close>, the no-break space 160 is skipped by both.
\<close>

lemma whitespace_examples:
  "py_int (''25'' @ [char_of (31::nat)]) = Inl ValueError
   \<and> py_strip (''25'' @ [char_of (31::nat)]) = ''25''
   \<and> py_int (char_of (160::nat) # ''12'') = Inr 12
   \<and> py_strip (char_of (160::nat) # ''12'') = ''12''
   \<and> probe_max_start (Resp (envelope [] (JStr (char_of (160::nat) # ''12'')))) = 10"
  by code_simp

text \<open>The cases in which the default ceiling is kept.\<close>

lemma total_field_extract:
  "total_field data = Some tot \<Longrightarrow>
   extract_total_body data =
     (if truthy tot then bindE (int_of_total tot) (\<lambda>n. Inr (Some n)) else Inr None)"
  by (auto simp: total_field_def extract_total_body_def bindE_def
           split: json.splits option.splits list.splits)

lemma int_of_total_exn: "int_of_total tot = Inl x \<Longrightarrow> x = ValueError"
  by (cases tot) (auto simp: py_int_def Let_def split: if_splits)


lemma probe_default_cases:
  "extract_total_results data = Inr None \<Longrightarrow> probe_max_start (Resp data) = DEFAULT_MAX_START"
  "extract_total_results data = Inl x \<Longrightarrow> probe_max_start (Resp data) = DEFAULT_MAX_START"
  "probe_max_start (Fail x) = DEFAULT_MAX_START"
  by (simp_all add: probe_max_start_def first_request_def probe_ceiling_def bindE_def try_except_def)

lemma total_field_none:
  assumes "total_field data = None"
  shows "probe_max_start (Resp data) = DEFAULT_MAX_START"
proof -
  have "extract_total_body data = Inr None \<or> (\<exists>x. extract_total_body data = Inl x)"
    using assms
    by (auto simp: total_field_def extract_total_body_def bindE_def
             split: json.splits option.splits list.splits)
  then have "extract_total_results data = Inr None \<or> (\<exists>x. extract_total_results data = Inl x)"
  proof
    assume "extract_total_body data = Inr None"
    then show ?thesis by (simp add: extract_total_results_def try_except_def)
  next
    assume "\<exists>x. extract_total_body data = Inl x"
    then obtain x where x: "extract_total_body data = Inl x" by blast
    show ?thesis
      by (cases "x \<in> {IndexError, KeyError, ValueError, TypeError}")
         (simp_all add: extract_total_results_def try_except_def x)
  qed
  then show ?thesis using probe_default_cases(1,2) by blast
qed

lemma unusable_total:
  assumes "total_field data = Some tot" "\<not> truthy tot \<or> int_of_total tot = Inl ValueError"
  shows "probe_max_start (Resp data) = DEFAULT_MAX_START"
proof -
  from assms have "extract_total_body data = Inr None \<or> extract_total_body data = Inl ValueError"
    by (auto simp: total_field_extract bindE_def)
  then have "extract_total_results data = Inr None"
    by (auto simp: extract_total_results_def try_except_def)
  then show ?thesis by (rule probe_default_cases(1))
qed

lemma nonpositive_total:
  assumes "total_field data = Some tot" "int_of_total tot = Inr n" "n \<le> 0"
  shows "probe_max_start (Resp data) = DEFAULT_MAX_START"
proof -
  from assms have "extract_total_body data = Inr None \<or> extract_total_body data = Inr (Some n)"
    by (auto simp: total_field_extract bindE_def)
  then have "extract_total_results data = Inr None \<or> extract_total_results data = Inr (Some n)"
    by (auto simp: extract_total_results_def try_except_def)
  with assms(3) show ?thesis
    by (auto simp: probe_max_start_def first_request_def probe_ceiling_def bindE_def try_except_def)
qed

text \<open>
  Claim C8, amended. A response whose count field holds a positive number \<open>T\<close> below
  \<open>10 * 2 ^ 50\<close>, as an integer or as a decimal string with commas anywhere in it, sets the
  ceiling to \<open>(ceil (T / 10) - 1) * 10\<close>, written here with the exact integer ceiling
  \<open>(T + 9) div 10\<close>. A response without the field, or with a field that is falsy or that
  \<^verbatim>\<open>int\<close> rejects, keeps \<open>DEFAULT_MAX_START\<close>, and so does a request that raised: the
  first request never ends the unit.
\<close>

theorem probe_ceiling_from_total_count:
  assumes field: "total_field data = Some tot"
    and shown: "tot = JInt (int T) \<or> (tot = JStr s \<and> filter (\<lambda>c. c \<noteq> CHR '','') s = decimal T)"
    and pos: "0 < T" and bound: "int T < 10 * 2 ^ 50"
  shows "probe_max_start (Resp data) = ((int T + 9) div 10 - 1) * RESULTS_PER_PAGE
       \<and> (total_field data' = None \<longrightarrow> probe_max_start (Resp data') = DEFAULT_MAX_START)
       \<and> (total_field data' = Some tot'
            \<and> (\<not> truthy tot' \<or> int_of_total tot' = Inl ValueError
                 \<or> (int_of_total tot' = Inr n' \<and> n' \<le> 0))
            \<longrightarrow> probe_max_start (Resp data') = DEFAULT_MAX_START)
       \<and> probe_max_start (Fail x) = DEFAULT_MAX_START"
proof -
  have t: "truthy tot" using shown pos decimal_nonempty[of T] by auto
  have i: "int_of_total tot = Inr (int T)"
    using shown int_of_total_rendered[OF bound, of s] int_of_total_int[OF bound] by blast
  have "extract_total_body data = Inr (Some (int T))"
    using total_field_extract[OF field] t i by (simp add: bindE_def)
  then have e: "extract_total_results data = Inr (Some (int T))"
    by (simp add: extract_total_results_def try_except_def)
  have p: "0 < int T" using pos by simp
  from ceil_truediv_exact[OF p bound] obtain q where
    q: "py_truediv (int T) 10 = Inr q" "py_ceil q = (int T + 9) div 10"
    by (cases "py_truediv (int T) 10") (auto simp: bindE_def)
  have "probe_ceiling data = Inr (Some (((int T + 9) div 10 - 1) * RESULTS_PER_PAGE))"
    using e p q by (simp add: probe_ceiling_def bindE_def RESULTS_PER_PAGE_def)
  then have "probe_max_start (Resp data) = ((int T + 9) div 10 - 1) * RESULTS_PER_PAGE"
    by (simp add: probe_max_start_def first_request_def try_except_def)
  with total_field_none[of data'] unusable_total[of data' tot']
    nonpositive_total[of data' tot' n'] probe_default_cases(3)[of x]
  show ?thesis by blast
qed

text \<open>
  The instance of the specification: \<^verbatim>\<open>"1,234"\<close> gives 1230; a \<^verbatim>\<open>null\<close> count and a
  \<^verbatim>\<open>null\<close> content keep 3000.
\<close>

theorem probe_ceiling_from_total_count_witness:
  "total_field (envelope [] (JStr ''1,234'')) = Some (JStr ''1,234'')
   \<and> filter (\<lambda>c. c \<noteq> CHR '','') ''1,234'' = decimal 1234
   \<and> (0::nat) < 1234 \<and> int 1234 < 10 * 2 ^ 50
   \<and> probe_max_start (Resp (envelope [] (JStr ''1,234''))) = 1230
   \<and> total_field (envelope [] JNull) = Some JNull \<and> \<not> truthy JNull
   \<and> probe_max_start (Resp (envelope [] JNull)) = 3000
   \<and> total_field (envelope [] (JStr (''25'' @ [char_of (31::nat)])))
        = Some (JStr (''25'' @ [char_of (31::nat)]))
   \<and> int_of_total (JStr (''25'' @ [char_of (31::nat)])) = Inl ValueError
   \<and> probe_max_start (Resp (envelope [] (JStr (''25'' @ [char_of (31::nat)])))) = 3000
   \<and> total_field null_content = None
   \<and> probe_max_start (Resp null_content) = 3000"
proof -
  have h1: "total_field (envelope [] (JStr ''1,234'')) = Some (JStr ''1,234'')" by code_simp
  have h2: "filter (\<lambda>c. c \<noteq> CHR '','') ''1,234'' = decimal 1234" by code_simp
  have h3: "(0::nat) < 1234" by simp
  have h4: "int 1234 < 10 * 2 ^ 50" by simp
  have h5: "total_field (envelope [] JNull) = Some JNull" by code_simp
  have h6: "\<not> truthy JNull" by simp
  have h7: "total_field null_content = None" by code_simp
  have h8: "total_field (envelope [] (JStr (''25'' @ [char_of (31::nat)])))
        = Some (JStr (''25'' @ [char_of (31::nat)]))" by code_simp
  have h9: "int_of_total (JStr (''25'' @ [char_of (31::nat)])) = Inl ValueError" by code_simp
  have sh: "JStr ''1,234'' = JInt (int 1234)
      \<or> (JStr ''1,234'' = JStr ''1,234'' \<and> filter (\<lambda>c. c \<noteq> CHR '','') ''1,234'' = decimal 1234)"
    using h2 by simp
  have v: "((int 1234 + 9) div 10 - 1) * RESULTS_PER_PAGE = 1230" "DEFAULT_MAX_START = 3000"
    by (simp_all add: RESULTS_PER_PAGE_def DEFAULT_MAX_START_def)
  note a = probe_ceiling_from_total_count[OF h1 sh h3 h4, where data'="envelope [] JNull" and tot'=JNull]
  note b = probe_ceiling_from_total_count[OF h1 sh h3 h4, where data'=null_content]
  note c = probe_ceiling_from_total_count[OF h1 sh h3 h4,
      where data'="envelope [] (JStr (''25'' @ [char_of (31::nat)]))"
        and tot'="JStr (''25'' @ [char_of (31::nat)])"]
  from a have a': "probe_max_start (Resp (envelope [] (JStr ''1,234''))) = 1230"
    "probe_max_start (Resp (envelope [] JNull)) = 3000"
    using h5 h6 v by simp_all
  from b have b': "probe_max_start (Resp null_content) = 3000" using h7 v by simp
  from c have c': "probe_max_start (Resp (envelope [] (JStr (''25'' @ [char_of (31::nat)])))) = 3000"
    using h8 h9 v by simp
  from a' b' c' h1 h2 h3 h4 h5 h6 h7 h8 h9 show ?thesis by simp
qed

text \<open>
  Claim C8 as stated, without the bound, fails: for \<open>T = 10 * 2 ^ 50 + 1\<close> the double nearest
  to \<open>T / 10\<close> is the integer \<open>2 ^ 50\<close>, so \<^verbatim>\<open>ceil\<close> returns \<open>2 ^ 50\<close> where the exact
  ceiling is \<open>2 ^ 50 + 1\<close>, and the ceiling set by the code is one page short of
  \<open>(ceil (T / 10) - 1) * 10\<close>.
\<close>

theorem float_quotient_below_exact_ceiling:
  "probe_max_start (Resp (envelope [] (JStr ''11,258,999,068,426,241''))) = 11258999068426230
   \<and> ((11258999068426241 + 9) div 10 - 1) * RESULTS_PER_PAGE = 11258999068426240"
  by code_simp

end
